theory Spec2Isabelle
  imports Complex_Main "HOL-Library.Word" "HOL-Library.Char_ord" "HOL-Library.List_Lexorder"
begin

unbundle bit_operations_syntax

section \<open>Data model of \<open>player.cpp\<close>\<close>

text \<open>
  The agent of \<open>src/player.cpp\<close> is the class \<open>Player\<close>. Its collaborators (the class
  \<open>Board\<close>, the type \<open>Move\<close>, the macros \<open>MINIMAXDEPTH\<close>, \<open>EDGEWEIGHT\<close> and
  \<open>CORNERWEIGHT\<close>, and the declaration of the member \<open>_table\<close>) live in headers and
  files other than \<open>player.cpp\<close>. They are parameters of the model, collected in the
  record \<open>env\<close>: every theorem below holds for each value of them.
\<close>

datatype Side = BLACK | WHITE

text \<open>\<open>Board\<close>: \<open>player.cpp\<close> reads the two public bitsets \<open>black\<close> and \<open>taken\<close>.\<close>

record Board =
  black :: "64 word"
  taken :: "64 word"

text \<open>
  \<open>_table\<close> maps a fingerprint string to an \<open>int\<close>. It is kept as the list of its entries in
  the container's iteration order, so that \<open>_table.begin()\<close> is the head of the list.
\<close>

type_synonym Table = "(string \<times> 32 word) list"

text \<open>
  The parts of the program that \<open>player.cpp\<close> uses and does not define.
  \<^item> \<open>getPossibleMoves\<close>, \<open>boardDoMove\<close>, \<open>count\<close>: the methods of \<open>Board\<close> (a \<open>NULL\<close> move
    is \<open>None\<close>); \<open>Board::copy\<close> is the identity on values.
  \<^item> \<open>MINIMAXDEPTH\<close>, \<open>EDGEWEIGHT\<close>, \<open>CORNERWEIGHT\<close>: the macros of \<open>player.h\<close>.
  \<^item> \<open>CLOCKS_PER_SEC\<close>: the constant of \<open><ctime>\<close>.
  \<^item> \<open>place\<close>: the position, in iteration order, at which the container behind \<open>_table\<close>
    puts a key that it does not hold yet. A container ordered by key puts it after
    the smaller keys, a container that iterates in insertion order puts it at the end.
\<close>

record 'm env =
  getPossibleMoves :: "Board \<Rightarrow> Side \<Rightarrow> 'm list"
  boardDoMove :: "Board \<Rightarrow> 'm option \<Rightarrow> Side \<Rightarrow> Board"
  count :: "Board \<Rightarrow> Side \<Rightarrow> int"
  MINIMAXDEPTH :: int
  EDGEWEIGHT :: int
  CORNERWEIGHT :: int
  CLOCKS_PER_SEC :: nat
  place :: "string \<Rightarrow> Table \<Rightarrow> nat"

text \<open>
  The members of \<open>Player\<close> that the search only reads: \<open>_side\<close>, \<open>_opponentSide\<close> and
  \<open>testingMinimax\<close>.
\<close>

record Player =
  side :: Side
  opponentSide :: Side
  testingMinimax :: bool

text \<open>
  The members that the search writes: \<open>_board\<close> and \<open>_table\<close>, and the heap: the number of
  \<open>Board\<close> and of \<open>Move\<close> objects that were allocated (by \<open>Board::copy\<close> and by
  \<open>Board::getPossibleMoves\<close>) and are not yet deleted.
\<close>

record PState =
  board :: Board
  table :: Table
  liveBoards :: int
  liveMoves :: int

definition INT_MIN :: int where
  "INT_MIN = - 2147483648"

definition INT_MAX :: int where
  "INT_MAX = 2147483647"

definition EDGES :: "64 word" where
  "EDGES = 0xff818181818181ff"

definition CORNERS :: "64 word" where
  "CORNERS = 0x8100000000000081"

text \<open>The constructor's \<open>_opponentSide = (_side == BLACK) ? (WHITE) : (BLACK)\<close>.\<close>

definition newPlayer :: "Side \<Rightarrow> Player" where
  "newPlayer s =
     \<lparr>side = s, opponentSide = (if s = BLACK then WHITE else BLACK), testingMinimax = False\<rparr>"

section \<open>The evaluator and the transposition table\<close>

text \<open>\<open>std::to_string\<close> of an unsigned integer: its decimal digits.\<close>

definition digit :: "nat \<Rightarrow> char" where
  "digit d = char_of (48 + d)"

fun to_string :: "nat \<Rightarrow> string" where
  "to_string n = (if n < 10 then [digit n] else to_string (n div 10) @ [digit (n mod 10)])"

declare to_string.simps [simp del]

text \<open>\<open>bitset<64>::count\<close>.\<close>

definition bitcount :: "64 word \<Rightarrow> nat" where
  "bitcount w = length (filter (bit w) [0..<64])"

text \<open>
  The fingerprint of lines 217 to 228: the agent's discs and all discs, as two decimal
  numbers.
\<close>

definition hashOf :: "Side \<Rightarrow> Board \<Rightarrow> string" where
  "hashOf s b =
     (let ai_side = (if s = BLACK then black b else NOT (black b) AND taken b);
          total = taken b
      in to_string (unat ai_side) @ '', '' @ to_string (unat total))"

text \<open>
  The score of lines 233 to 260. \<open>score\<close> is an \<open>int\<close> and the counts are \<open>size_t\<close>: each
  \<open>+=\<close> and \<open>-=\<close> computes modulo \<open>2^64\<close> and stores the low 32 bits, which is arithmetic
  on 32-bit words.
\<close>

definition heuristic :: "'m env \<Rightarrow> Side \<Rightarrow> Board \<Rightarrow> 32 word" where
  "heuristic E s b =
     (let white = taken b AND NOT (black b);
          score = 0 + (of_nat (bitcount (black b)) - of_nat (bitcount white));
          score = score + word_of_int (EDGEWEIGHT E) * of_nat (bitcount (black b AND EDGES));
          score = score + word_of_int (CORNERWEIGHT E) * of_nat (bitcount (black b AND CORNERS));
          score = score - word_of_int (EDGEWEIGHT E) * of_nat (bitcount (white AND EDGES));
          score = score - word_of_int (CORNERWEIGHT E) * of_nat (bitcount (white AND CORNERS))
      in if s = WHITE then score * (- 1) else score)"

text \<open>\<open>_table[hash] = score\<close> for a key that the table does not hold.\<close>

definition tableInsert :: "'m env \<Rightarrow> string \<Rightarrow> 32 word \<Rightarrow> Table \<Rightarrow> Table" where
  "tableInsert E h v t = (let n = place E h t in take n t @ (h, v) # drop n t)"

text \<open>
  \<open>Player::evaluate\<close>. The difference of two \<open>int\<close> counts is an \<open>int\<close> (32 bits). The
  moves that line 246 allocates are deleted again by the loop of lines 248 to 252.
\<close>

definition evaluate :: "'m env \<Rightarrow> Player \<Rightarrow> Board \<Rightarrow> PState \<Rightarrow> int \<times> PState" where
  "evaluate E P b st =
     (if testingMinimax P
      then (sint (word_of_int (count E b (side P) - count E b (opponentSide P)) :: 32 word), st)
      else
        let hash = hashOf (side P) b in
        case map_of (table st) hash of
          Some v \<Rightarrow> (sint v, st)
        | None \<Rightarrow>
            let score = heuristic E (side P) b;
                next_moves = getPossibleMoves E b BLACK;
                st = st\<lparr>liveMoves := liveMoves st + int (length next_moves)\<rparr>;
                st = st\<lparr>liveMoves := liveMoves st - int (length next_moves)\<rparr>;
                t = (if 100000 \<le> length (table st) then tl (table st) else table st)
            in (sint score, st\<lparr>table := tableInsert E hash score t\<rparr>))"

text \<open>A sequence of calls of \<open>evaluate\<close>, one board after the other.\<close>

fun evaluateAll :: "'m env \<Rightarrow> Player \<Rightarrow> Board list \<Rightarrow> PState \<Rightarrow> PState" where
  "evaluateAll E P [] st = st"
| "evaluateAll E P (b # bs) st = evaluateAll E P bs (snd (evaluate E P b st))"

section \<open>The search\<close>

text \<open>
  \<open>minimaxHelper\<close> recurses until \<open>depth == 0\<close> or until a side cannot move, so a call
  with a negative depth is bounded by the game only. The model counts the nesting of
  the calls: \<open>fuel\<close> is the number of nested calls that are allowed, and \<open>None\<close> says that
  the recursion went deeper.

  The loop of lines 169 to 182, for the agent's own side. \<open>rec\<close> is the recursive call
  of line 174. A \<open>break\<close> leaves the loop before the two \<open>delete\<close> statements.
\<close>

fun maxLoop ::
  "(Board \<Rightarrow> int \<Rightarrow> int \<Rightarrow> PState \<Rightarrow> (int \<times> PState) option) \<Rightarrow> 'm env \<Rightarrow> Board \<Rightarrow> Side \<Rightarrow>
   'm list \<Rightarrow> int \<Rightarrow> int \<Rightarrow> PState \<Rightarrow> (int \<times> PState) option" where
  "maxLoop rec E b s [] alpha beta st = Some (alpha, st)"
| "maxLoop rec E b s (m # ms) alpha beta st =
     (let nextBoard = boardDoMove E b (Some m) s;
          st = st\<lparr>liveBoards := liveBoards st + 1\<rparr>
      in case rec nextBoard alpha beta st of
           None \<Rightarrow> None
         | Some (score, st) \<Rightarrow>
             let alpha = max alpha score
             in if beta \<le> alpha then Some (alpha, st)
                else maxLoop rec E b s ms alpha beta
                       (st\<lparr>liveMoves := liveMoves st - 1, liveBoards := liveBoards st - 1\<rparr>))"

text \<open>The loop of lines 187 to 200, for the opponent.\<close>

fun minLoop ::
  "(Board \<Rightarrow> int \<Rightarrow> int \<Rightarrow> PState \<Rightarrow> (int \<times> PState) option) \<Rightarrow> 'm env \<Rightarrow> Board \<Rightarrow> Side \<Rightarrow>
   'm list \<Rightarrow> int \<Rightarrow> int \<Rightarrow> PState \<Rightarrow> (int \<times> PState) option" where
  "minLoop rec E b s [] alpha beta st = Some (beta, st)"
| "minLoop rec E b s (m # ms) alpha beta st =
     (let nextBoard = boardDoMove E b (Some m) s;
          st = st\<lparr>liveBoards := liveBoards st + 1\<rparr>
      in case rec nextBoard alpha beta st of
           None \<Rightarrow> None
         | Some (score, st) \<Rightarrow>
             let beta = min beta score
             in if beta \<le> alpha then Some (beta, st)
                else minLoop rec E b s ms alpha beta
                       (st\<lparr>liveMoves := liveMoves st - 1, liveBoards := liveBoards st - 1\<rparr>))"

text \<open>\<open>Player::minimaxHelper\<close>.\<close>

fun minimaxHelper ::
  "nat \<Rightarrow> 'm env \<Rightarrow> Player \<Rightarrow> int \<Rightarrow> Board \<Rightarrow> Side \<Rightarrow> int \<Rightarrow> int \<Rightarrow> PState \<Rightarrow>
   (int \<times> PState) option" where
  "minimaxHelper 0 E P depth b s alpha beta st = None"
| "minimaxHelper (Suc fuel) E P depth b s alpha beta st =
     (if depth = 0 then Some (evaluate E P b st)
      else
        let moves = getPossibleMoves E b s;
            st = st\<lparr>liveMoves := liveMoves st + int (length moves)\<rparr>
        in if moves = [] then Some (evaluate E P b st)
           else if s = side P
           then maxLoop (\<lambda>nextBoard. minimaxHelper fuel E P (depth - 1) nextBoard (opponentSide P))
                  E b s moves INT_MIN beta st
           else minLoop (\<lambda>nextBoard. minimaxHelper fuel E P (depth - 1) nextBoard (side P))
                  E b s moves alpha INT_MAX st)"

text \<open>
  The loop of lines 113 to 127 in \<open>findMinimaxMove\<close>. \<open>best\<close> is a pointer into \<open>moves\<close>:
  after the assignment of line 121 it is \<open>*it\<close>, and otherwise it points to an earlier
  element or is \<open>NULL\<close>, so \<open>*it != best\<close> holds exactly when the test of line 119 failed.
\<close>

fun rootLoop ::
  "(Board \<Rightarrow> int \<Rightarrow> PState \<Rightarrow> (int \<times> PState) option) \<Rightarrow> 'm env \<Rightarrow> Player \<Rightarrow> Board \<Rightarrow>
   'm list \<Rightarrow> int \<Rightarrow> 'm option \<Rightarrow> PState \<Rightarrow> (int \<times> 'm option \<times> PState) option" where
  "rootLoop rec E P b [] alpha best st = Some (alpha, best, st)"
| "rootLoop rec E P b (m # ms) alpha best st =
     (let nextBoard = boardDoMove E b (Some m) (side P);
          st = st\<lparr>liveBoards := liveBoards st + 1\<rparr>
      in case rec nextBoard alpha st of
           None \<Rightarrow> None
         | Some (score, st) \<Rightarrow>
             let better = (score \<ge> alpha);
                 alpha = (if better then score else alpha);
                 best = (if better then Some m else best);
                 st = (if \<not> better then st\<lparr>liveMoves := liveMoves st - 1\<rparr> else st);
                 st = st\<lparr>liveBoards := liveBoards st - 1\<rparr>
             in rootLoop rec E P b ms alpha best st)"

text \<open>
  The body of \<open>findMinimaxMove\<close>, with the final value of its local \<open>alpha\<close> (the best score
  at the root) beside the move that it returns.
\<close>

definition searchRoot ::
  "nat \<Rightarrow> 'm env \<Rightarrow> Player \<Rightarrow> int \<Rightarrow> PState \<Rightarrow> (int \<times> 'm option \<times> PState) option" where
  "searchRoot fuel E P depth st =
     (let alpha = INT_MIN;
          beta = INT_MAX;
          moves = getPossibleMoves E (board st) (side P);
          st = st\<lparr>liveMoves := liveMoves st + int (length moves)\<rparr>
      in rootLoop (\<lambda>nextBoard alpha. minimaxHelper fuel E P (depth - 1) nextBoard (opponentSide P) alpha beta)
           E P (board st) moves alpha None st)"

text \<open>\<open>Player::findMinimaxMove\<close>.\<close>

definition findMinimaxMove ::
  "nat \<Rightarrow> 'm env \<Rightarrow> Player \<Rightarrow> int \<Rightarrow> PState \<Rightarrow> ('m option \<times> PState) option" where
  "findMinimaxMove fuel E P depth st =
     (case searchRoot fuel E P depth st of
        None \<Rightarrow> None
      | Some (alpha, best, st) \<Rightarrow> Some (best, st))"



section \<open>The move selector\<close>

text \<open>
  The loop condition of line 69, \<open>(double)(clock() - start) / (CLOCKS_PER_SEC / 1000) <
  time_allowed\<close>. The divisor is an integer quotient; where it is zero the floating-point
  quotient is infinite or not a number, and it is below \<open>time_allowed\<close> only when it is
  negative infinity.
\<close>

definition timeLeft :: "'m env \<Rightarrow> int \<Rightarrow> int \<Rightarrow> int \<Rightarrow> bool" where
  "timeLeft E now start time_allowed =
     (let d = int (CLOCKS_PER_SEC E div 1000)
      in if d = 0 then now - start < 0
         else real_of_int (now - start) / real_of_int d < real_of_int time_allowed)"

text \<open>
  The loop of lines 69 to 72. The list holds the values that the successive calls of
  \<open>clock()\<close> return; a run that needs more readings than the list has is \<open>None\<close>.
\<close>

fun deepen ::
  "nat \<Rightarrow> 'm env \<Rightarrow> Player \<Rightarrow> int list \<Rightarrow> int \<Rightarrow> int \<Rightarrow> int \<Rightarrow> 'm option \<Rightarrow> PState \<Rightarrow>
   ('m option \<times> PState) option" where
  "deepen fuel E P [] start time_allowed depth m st = None"
| "deepen fuel E P (now # clock) start time_allowed depth m st =
     (if timeLeft E now start time_allowed
      then (if testingMinimax P
            then (case findMinimaxMove fuel E P 2 st of
                    None \<Rightarrow> None
                  | Some (m, st) \<Rightarrow> deepen fuel E P clock start time_allowed depth m st)
            else (case findMinimaxMove fuel E P depth st of
                    None \<Rightarrow> None
                  | Some (m, st) \<Rightarrow> deepen fuel E P clock start time_allowed (depth + 1) m st))
      else Some (m, st))"

text \<open>\<open>Player::doMove\<close>. For a positive \<open>msLeft\<close> the C++ quotient \<open>msLeft / 500\<close> is \<open>div\<close>.\<close>

definition doMove ::
  "nat \<Rightarrow> 'm env \<Rightarrow> Player \<Rightarrow> int list \<Rightarrow> 'm option \<Rightarrow> int \<Rightarrow> PState \<Rightarrow>
   ('m option \<times> PState) option" where
  "doMove fuel E P clock opponentsMove msLeft st =
     (let st = (case opponentsMove of
                  Some om \<Rightarrow> st\<lparr>board := boardDoMove E (board st) (Some om) (opponentSide P)\<rparr>
                | None \<Rightarrow> st);
          m = None;
          r = (if msLeft > 0
               then (case clock of
                       [] \<Rightarrow> None
                     | start # clock \<Rightarrow>
                         let time_allowed = msLeft div 500;
                             depth = MINIMAXDEPTH E
                         in deepen fuel E P clock start time_allowed depth m st)
               else (if testingMinimax P then findMinimaxMove fuel E P 2 st
                     else findMinimaxMove fuel E P (MINIMAXDEPTH E) st))
      in case r of
           None \<Rightarrow> None
         | Some (m, st) \<Rightarrow> Some (m, st\<lparr>board := boardDoMove E (board st) m (side P)\<rparr>))"

section \<open>Opening precomputation\<close>

text \<open>\<open>positions.front()\<close> on an empty vector has no defined result.\<close>

datatype fault = FrontOfEmptyVector

text \<open>
  One pass through the body of the loop of lines 284 to 303. The moves of line 291 are
  not deleted.
\<close>

definition openingStep ::
  "'m env \<Rightarrow> Player \<Rightarrow> (Side \<times> Board) list \<Rightarrow> PState \<Rightarrow> fault + ((Side \<times> Board) list \<times> PState)" where
  "openingStep E P positions st =
     (case positions of
        [] \<Rightarrow> Inl FrontOfEmptyVector
      | cur # rest \<Rightarrow>
          let st = snd (evaluate E P (snd cur) st);
              moves = getPossibleMoves E (snd cur) (fst cur);
              st = st\<lparr>liveMoves := liveMoves st + int (length moves)\<rparr>;
              next = (if fst cur = BLACK then WHITE else BLACK);
              children = map (\<lambda>m. (next, boardDoMove E (snd cur) (Some m) (fst cur))) moves;
              st = st\<lparr>liveBoards := liveBoards st + int (length moves) - 1\<rparr>
          in Inr (rest @ children, st))"

text \<open>The loop itself; \<open>None\<close> after \<open>fuel\<close> passes without leaving it.\<close>

fun openingLoop ::
  "nat \<Rightarrow> 'm env \<Rightarrow> Player \<Rightarrow> (Side \<times> Board) list \<Rightarrow> PState \<Rightarrow>
   (fault + ((Side \<times> Board) list \<times> PState)) option" where
  "openingLoop 0 E P positions st = None"
| "openingLoop (Suc fuel) E P positions st =
     (if length (table st) < 25000
      then (case openingStep E P positions st of
              Inl e \<Rightarrow> Some (Inl e)
            | Inr (positions, st) \<Rightarrow> openingLoop fuel E P positions st)
      else Some (Inr (positions, st)))"

text \<open>\<open>Player::computeOpening\<close>.\<close>

definition computeOpening :: "nat \<Rightarrow> 'm env \<Rightarrow> Player \<Rightarrow> PState \<Rightarrow> (fault + PState) option" where
  "computeOpening fuel E P st =
     (let positions = [(side P, board st)];
          st = st\<lparr>liveBoards := liveBoards st + 1\<rparr>
      in case openingLoop fuel E P positions st of
           None \<Rightarrow> None
         | Some (Inl e) \<Rightarrow> Some (Inl e)
         | Some (Inr (positions, st)) \<Rightarrow>
             Some (Inr (st\<lparr>liveBoards := liveBoards st - int (length positions)\<rparr>)))"

text \<open>
  The state of the loop after \<open>k\<close> passes, when the loop makes that many without a fault.
\<close>

fun openingAfter ::
  "nat \<Rightarrow> 'm env \<Rightarrow> Player \<Rightarrow> (Side \<times> Board) list \<Rightarrow> PState \<Rightarrow>
   ((Side \<times> Board) list \<times> PState) option" where
  "openingAfter 0 E P positions st = Some (positions, st)"
| "openingAfter (Suc k) E P positions st =
     (if length (table st) < 25000
      then (case openingStep E P positions st of
              Inl e \<Rightarrow> None
            | Inr (positions, st) \<Rightarrow> openingAfter k E P positions st)
      else None)"

text \<open>
  The boards that leave the queue in the first \<open>n\<close> passes when nothing stops the loop:
  the game tree in breadth-first order.
\<close>

fun bfsOrder :: "nat \<Rightarrow> 'm env \<Rightarrow> (Side \<times> Board) list \<Rightarrow> Board list" where
  "bfsOrder 0 E positions = []"
| "bfsOrder (Suc n) E [] = []"
| "bfsOrder (Suc n) E (cur # rest) =
     snd cur #
     bfsOrder n E
       (rest @ map (\<lambda>m. (if fst cur = BLACK then WHITE else BLACK,
                           boardDoMove E (snd cur) (Some m) (fst cur)))
                 (getPossibleMoves E (snd cur) (fst cur)))"

section \<open>Unpruned minimax, the reference of the search\<close>

text \<open>
  Full minimax of the same depth with the same evaluator: the search of
  \<open>minimaxHelper\<close> and \<open>findMinimaxMove\<close> without bounds and without \<open>break\<close>. Every move
  of a node is searched, the agent's side takes the maximum of the scores and the
  opponent the minimum.
\<close>

fun fullMaxLoop ::
  "(Board \<Rightarrow> PState \<Rightarrow> (int \<times> PState) option) \<Rightarrow> 'm env \<Rightarrow> Board \<Rightarrow> Side \<Rightarrow> 'm list \<Rightarrow> int \<Rightarrow>
   PState \<Rightarrow> (int \<times> PState) option" where
  "fullMaxLoop rec E b s [] best st = Some (best, st)"
| "fullMaxLoop rec E b s (m # ms) best st =
     (case rec (boardDoMove E b (Some m) s) st of
        None \<Rightarrow> None
      | Some (score, st) \<Rightarrow> fullMaxLoop rec E b s ms (max best score) st)"

fun fullMinLoop ::
  "(Board \<Rightarrow> PState \<Rightarrow> (int \<times> PState) option) \<Rightarrow> 'm env \<Rightarrow> Board \<Rightarrow> Side \<Rightarrow> 'm list \<Rightarrow> int \<Rightarrow>
   PState \<Rightarrow> (int \<times> PState) option" where
  "fullMinLoop rec E b s [] best st = Some (best, st)"
| "fullMinLoop rec E b s (m # ms) best st =
     (case rec (boardDoMove E b (Some m) s) st of
        None \<Rightarrow> None
      | Some (score, st) \<Rightarrow> fullMinLoop rec E b s ms (min best score) st)"

fun fullMinimax ::
  "nat \<Rightarrow> 'm env \<Rightarrow> Player \<Rightarrow> int \<Rightarrow> Board \<Rightarrow> Side \<Rightarrow> PState \<Rightarrow> (int \<times> PState) option" where
  "fullMinimax 0 E P depth b s st = None"
| "fullMinimax (Suc fuel) E P depth b s st =
     (if depth = 0 then Some (evaluate E P b st)
      else
        let moves = getPossibleMoves E b s
        in if moves = [] then Some (evaluate E P b st)
           else if s = side P
           then fullMaxLoop (\<lambda>nextBoard. fullMinimax fuel E P (depth - 1) nextBoard (opponentSide P))
                  E b s moves INT_MIN st
           else fullMinLoop (\<lambda>nextBoard. fullMinimax fuel E P (depth - 1) nextBoard (side P))
                  E b s moves INT_MAX st)"

text \<open>The best score at the root of the unpruned search.\<close>

definition fullRoot :: "nat \<Rightarrow> 'm env \<Rightarrow> Player \<Rightarrow> int \<Rightarrow> PState \<Rightarrow> (int \<times> PState) option" where
  "fullRoot fuel E P depth st =
     fullMaxLoop (\<lambda>nextBoard. fullMinimax fuel E P (depth - 1) nextBoard (opponentSide P))
       E (board st) (side P) (getPossibleMoves E (board st) (side P)) INT_MIN st"

section \<open>The value of a position\<close>

text \<open>
  What \<open>evaluate\<close> computes for a board when it does not answer from the table.
\<close>

definition leafScore :: "'m env \<Rightarrow> Player \<Rightarrow> Board \<Rightarrow> int" where
  "leafScore E P b =
     (if testingMinimax P
      then sint (word_of_int (count E b (side P) - count E b (opponentSide P)) :: 32 word)
      else sint (heuristic E (side P) b))"

text \<open>The minimax value of a node of the game tree, without any state.\<close>

fun maxValue ::
  "(Board \<Rightarrow> int option) \<Rightarrow> 'm env \<Rightarrow> Board \<Rightarrow> Side \<Rightarrow> 'm list \<Rightarrow> int \<Rightarrow> int option" where
  "maxValue rec E b s [] best = Some best"
| "maxValue rec E b s (m # ms) best =
     (case rec (boardDoMove E b (Some m) s) of
        None \<Rightarrow> None
      | Some v \<Rightarrow> maxValue rec E b s ms (max best v))"

fun minValue ::
  "(Board \<Rightarrow> int option) \<Rightarrow> 'm env \<Rightarrow> Board \<Rightarrow> Side \<Rightarrow> 'm list \<Rightarrow> int \<Rightarrow> int option" where
  "minValue rec E b s [] best = Some best"
| "minValue rec E b s (m # ms) best =
     (case rec (boardDoMove E b (Some m) s) of
        None \<Rightarrow> None
      | Some v \<Rightarrow> minValue rec E b s ms (min best v))"

fun nodeValue :: "nat \<Rightarrow> 'm env \<Rightarrow> Player \<Rightarrow> int \<Rightarrow> Board \<Rightarrow> Side \<Rightarrow> int option" where
  "nodeValue 0 E P depth b s = None"
| "nodeValue (Suc fuel) E P depth b s =
     (if depth = 0 then Some (leafScore E P b)
      else
        let moves = getPossibleMoves E b s
        in if moves = [] then Some (leafScore E P b)
           else if s = side P
           then maxValue (\<lambda>nextBoard. nodeValue fuel E P (depth - 1) nextBoard (opponentSide P))
                  E b s moves INT_MIN
           else minValue (\<lambda>nextBoard. nodeValue fuel E P (depth - 1) nextBoard (side P))
                  E b s moves INT_MAX)"

text \<open>
  The invariant of \<open>Board\<close>: a black disc is a disc. The invariant of the table: an entry
  holds the score of the boards that have its fingerprint.
\<close>

definition wellFormed :: "Board \<Rightarrow> bool" where
  "wellFormed b = (black b AND NOT (taken b) = 0)"

definition movesKeepWellFormed :: "'m env \<Rightarrow> bool" where
  "movesKeepWellFormed E = (\<forall>b m s. wellFormed b \<longrightarrow> wellFormed (boardDoMove E b (Some m) s))"

definition tableOK :: "'m env \<Rightarrow> Player \<Rightarrow> Table \<Rightarrow> bool" where
  "tableOK E P t =
     (\<forall>e \<in> set t. \<forall>b. wellFormed b \<and> hashOf (side P) b = fst e \<longrightarrow> snd e = heuristic E (side P) b)"

section \<open>Example parameters\<close>

text \<open>
  A container ordered by key (\<open>std::map\<close>): a new key goes after the keys that are
  smaller in the order of \<open>std::string\<close>.
\<close>

definition placeByKey :: "string \<Rightarrow> Table \<Rightarrow> nat" where
  "placeByKey h t = length (takeWhile (\<lambda>e. fst e < h) t)"

text \<open>
  Piece counts as \<open>Board::count\<close> reads them off the two bitsets.
\<close>

definition countDiscs :: "Board \<Rightarrow> Side \<Rightarrow> int" where
  "countDiscs b s =
     (if s = BLACK then int (bitcount (black b))
      else int (bitcount (taken b AND NOT (black b))))"

text \<open>
  A game on three cells: a move puts a disc of the mover on a free cell and turns no
  other disc. Its \<open>count\<close> counts the discs of a side on the three cells.
\<close>

definition toyCount :: "Board \<Rightarrow> Side \<Rightarrow> int" where
  "toyCount b s =
     int (length (filter (\<lambda>i. bit (taken b) i \<and> (bit (black b) i \<longleftrightarrow> s = BLACK)) [0, 1, 2]))"

definition toyGame :: "nat env" where
  "toyGame =
     \<lparr>getPossibleMoves = (\<lambda>b s. filter (\<lambda>i. \<not> bit (taken b) i) [0, 1, 2]),
      boardDoMove = (\<lambda>b m s. case m of
                       None \<Rightarrow> b
                     | Some i \<Rightarrow> \<lparr>black = (if s = BLACK then set_bit i (black b) else black b),
                                  taken = set_bit i (taken b)\<rparr>),
      count = toyCount,
      MINIMAXDEPTH = 2, EDGEWEIGHT = 2, CORNERWEIGHT = 5, CLOCKS_PER_SEC = 1000000,
      place = placeByKey\<rparr>"

definition emptyBoard :: Board where
  "emptyBoard = \<lparr>black = 0, taken = 0\<rparr>"

definition testPlayer :: "Side \<Rightarrow> Player" where
  "testPlayer s = (newPlayer s)\<lparr>testingMinimax := True\<rparr>"



text \<open>A game in which nobody can ever move, and a board with two discs.\<close>

definition noMoves :: "nat env" where
  "noMoves =
     \<lparr>getPossibleMoves = (\<lambda>b s. []), boardDoMove = (\<lambda>b m s. b),
      count = countDiscs,
      MINIMAXDEPTH = 4, EDGEWEIGHT = 2, CORNERWEIGHT = 5, CLOCKS_PER_SEC = 1000000,
      place = placeByKey\<rparr>"

definition board1 :: Board where
  "board1 = \<lparr>black = 1, taken = 3\<rparr>"

definition emptyState :: "Board \<Rightarrow> PState" where
  "emptyState b = \<lparr>board = b, table = [], liveBoards = 0, liveMoves = 0\<rparr>"

text \<open>
  Boards with distinct fingerprints: no black disc, and the discs of the binary digits
  of \<open>n\<close>. A run that evaluates 100000 of them, the board of 2 first and the board of 1
  second.
\<close>

definition numBoard :: "nat \<Rightarrow> Board" where
  "numBoard n = \<lparr>black = 0, taken = of_nat n\<rparr>"

text \<open>
  A game with one line of play: the only move adds one to the number that \<open>taken\<close>
  holds, so the board of \<open>n\<close> is followed by the board of \<open>n + 1\<close>.
\<close>

definition chainGame :: "nat env" where
  "chainGame =
     \<lparr>getPossibleMoves = (\<lambda>b s. [0]),
      boardDoMove = (\<lambda>b m s. case m of None \<Rightarrow> b | Some i \<Rightarrow> b\<lparr>taken := taken b + 1\<rparr>),
      count = countDiscs,
      MINIMAXDEPTH = 4, EDGEWEIGHT = 2, CORNERWEIGHT = 5, CLOCKS_PER_SEC = 1000000,
      place = placeByKey\<rparr>"

definition warmBoards :: "Board list" where
  "warmBoards = map numBoard (2 # 1 # [3..<100001])"

definition warmState :: PState where
  "warmState = evaluateAll noMoves (newPlayer BLACK) warmBoards (emptyState emptyBoard)"

section \<open>Properties of the evaluator\<close>

lemma length_tableInsert: "length (tableInsert E h v t) = Suc (length t)"
  by (simp add: tableInsert_def Let_def)

lemma evaluate_table_bound:
  "length (table st) \<le> 100000 \<Longrightarrow> length (table (snd (evaluate E P b st))) \<le> 100000"
  by (auto simp: evaluate_def Let_def length_tableInsert split: option.splits)

lemma sint32_of_int:
  "INT_MIN \<le> x \<Longrightarrow> x \<le> INT_MAX \<Longrightarrow> sint (word_of_int x :: 32 word) = x"
  by (simp add: INT_MIN_def INT_MAX_def signed_of_int signed_take_bit_int_eq_self)

lemma sint32_range: "INT_MIN \<le> sint (w :: 32 word) \<and> sint w \<le> INT_MAX"
  using sint_ge [of w] sint_lt [of w] by (simp add: INT_MIN_def INT_MAX_def)

lemma bitcount_1: "bitcount 1 = 1"
  by (simp add: bitcount_def upt_conv_Cons bit_1_iff)

lemma bitcount_2: "bitcount 2 = 1"
  by (simp add: bitcount_def upt_conv_Cons)

lemma board1_white: "taken board1 AND NOT (black board1) = 2"
  by (simp add: board1_def)

lemma map_of_tl_None: "map_of t h = None \<Longrightarrow> map_of (tl t) h = None"
  by (cases t) (auto split: if_splits)

lemma map_of_take_None: "map_of t h = None \<Longrightarrow> map_of (take n t) h = None"
  by (auto simp: map_of_eq_None_iff dest: in_set_takeD)

lemma map_of_tableInsert_same:
  "map_of t h = None \<Longrightarrow> map_of (tableInsert E h v t) h = Some v"
  by (simp add: tableInsert_def Let_def map_of_take_None map_add_def)

text \<open>
  C7: whatever boards \<open>evaluate\<close> is called on, one after the other, a table of at most
  100000 entries stays a table of at most 100000 entries. Every single call preserves
  the bound (the list of one board), and so does every sequence of calls.
\<close>

theorem cache_bound_invariant:
  "length (table st) \<le> 100000 \<Longrightarrow> length (table (evaluateAll E P bs st)) \<le> 100000"
  by (induction bs arbitrary: st) (simp_all add: evaluate_table_bound)

theorem cache_bound_invariant_witness:
  "length (table (emptyState board1)) \<le> 100000 \<and>
   length (table (evaluateAll noMoves (newPlayer BLACK) [board1, emptyBoard, board1]
                    (emptyState board1))) \<le> 100000"
  using cache_bound_invariant [of "emptyState board1" noMoves "newPlayer BLACK"
      "[board1, emptyBoard, board1]"]
  by (simp add: emptyState_def)

text \<open>
  C8: in material-only testing mode \<open>evaluate\<close> returns the agent's piece count minus the
  opponent's piece count, and it returns the state as it got it: the table is neither
  read nor written. The difference of two piece counts lies in the range of \<open>int\<close>.
\<close>

theorem evaluate_material_only:
  assumes "testingMinimax P"
    and "INT_MIN \<le> count E b (side P) - count E b (opponentSide P)"
    and "count E b (side P) - count E b (opponentSide P) \<le> INT_MAX"
  shows "evaluate E P b st = (count E b (side P) - count E b (opponentSide P), st)"
  using assms(1) sint32_of_int [OF assms(2,3)] by (simp add: evaluate_def del: of_int_diff)

theorem evaluate_material_only_witness:
  "testingMinimax (testPlayer BLACK) \<and>
   INT_MIN \<le> count noMoves board1 (side (testPlayer BLACK))
             - count noMoves board1 (opponentSide (testPlayer BLACK)) \<and>
   count noMoves board1 (side (testPlayer BLACK))
     - count noMoves board1 (opponentSide (testPlayer BLACK)) \<le> INT_MAX \<and>
   evaluate noMoves (testPlayer BLACK) board1 (emptyState board1) = (0, emptyState board1)"
proof -
  have c: "count noMoves board1 (side (testPlayer BLACK))
      - count noMoves board1 (opponentSide (testPlayer BLACK)) = 0"
    by (simp add: noMoves_def testPlayer_def newPlayer_def countDiscs_def board1_white)
       (simp add: board1_def bitcount_1 bitcount_2)
  have t: "testingMinimax (testPlayer BLACK)"
    by (simp add: testPlayer_def)
  show ?thesis
    using evaluate_material_only [OF t, of noMoves board1 "emptyState board1"] t
    by (simp add: c INT_MIN_def INT_MAX_def)
qed

text \<open>
  C9: two calls of \<open>evaluate\<close> on the same board, one after the other, return the same
  score. The second call changes nothing. With the heuristic evaluator the table holds
  the returned score under the board's fingerprint after the first call, so the second
  call answers from the table.
\<close>

theorem evaluate_twice:
  "snd (evaluate E P b (snd (evaluate E P b st))) = snd (evaluate E P b st) \<and>
   fst (evaluate E P b (snd (evaluate E P b st))) = fst (evaluate E P b st) \<and>
   (testingMinimax P \<or>
    map_option sint (map_of (table (snd (evaluate E P b st))) (hashOf (side P) b))
      = Some (fst (evaluate E P b st)))"
proof (cases "testingMinimax P")
  case True
  then show ?thesis by (simp add: evaluate_def)
next
  case False
  show ?thesis
  proof (cases "map_of (table st) (hashOf (side P) b)")
    case (Some v)
    with False show ?thesis by (simp add: evaluate_def)
  next
    case None
    let ?t = "if 100000 \<le> length (table st) then tl (table st) else table st"
    have "map_of ?t (hashOf (side P) b) = None"
      using None by (simp add: map_of_tl_None)
    then have hit: "map_of (tableInsert E (hashOf (side P) b) (heuristic E (side P) b) ?t)
        (hashOf (side P) b) = Some (heuristic E (side P) b)"
      by (rule map_of_tableInsert_same)
    have first: "evaluate E P b st =
        (sint (heuristic E (side P) b),
         st\<lparr>table := tableInsert E (hashOf (side P) b) (heuristic E (side P) b) ?t\<rparr>)"
      using False None by (simp add: evaluate_def Let_def)
    show ?thesis
      unfolding first using False hit by (simp add: evaluate_def)
  qed
qed

section \<open>Properties of the search and of the move selector\<close>

lemma timeLeft_zero: "start \<le> now \<Longrightarrow> \<not> timeLeft E now start 0"
  by (simp add: timeLeft_def Let_def divide_less_0_iff not_less)

lemma maxLoop_total:
  "(\<And>nb a be q. rec nb a be q \<noteq> None) \<Longrightarrow> maxLoop rec E b s ms alpha beta st \<noteq> None"
proof (induction ms arbitrary: alpha st)
  case Nil
  show ?case by simp
next
  case (Cons m ms)
  obtain r q where "rec (boardDoMove E b (Some m) s) alpha beta (st\<lparr>liveBoards := liveBoards st + 1\<rparr>) = Some (r, q)"
    using Cons.prems [of "boardDoMove E b (Some m) s" alpha beta "st\<lparr>liveBoards := liveBoards st + 1\<rparr>"]
    by (cases "rec (boardDoMove E b (Some m) s) alpha beta (st\<lparr>liveBoards := liveBoards st + 1\<rparr>)") auto
  then show ?case
    using Cons.IH [OF Cons.prems] by (simp add: Let_def)
qed

lemma minLoop_total:
  "(\<And>nb a be q. rec nb a be q \<noteq> None) \<Longrightarrow> minLoop rec E b s ms alpha beta st \<noteq> None"
proof (induction ms arbitrary: beta st)
  case Nil
  show ?case by simp
next
  case (Cons m ms)
  obtain r q where "rec (boardDoMove E b (Some m) s) alpha beta (st\<lparr>liveBoards := liveBoards st + 1\<rparr>) = Some (r, q)"
    using Cons.prems [of "boardDoMove E b (Some m) s" alpha beta "st\<lparr>liveBoards := liveBoards st + 1\<rparr>"]
    by (cases "rec (boardDoMove E b (Some m) s) alpha beta (st\<lparr>liveBoards := liveBoards st + 1\<rparr>)") auto
  then show ?case
    using Cons.IH [OF Cons.prems] by (simp add: Let_def)
qed

lemma minimaxHelper_total:
  "0 \<le> depth \<Longrightarrow> depth < int fuel \<Longrightarrow> minimaxHelper fuel E P depth b s alpha beta st \<noteq> None"
proof (induction fuel arbitrary: depth b s alpha beta st)
  case 0
  then show ?case by simp
next
  case (Suc fuel)
  show ?case
  proof (cases "depth = 0")
    case True
    then show ?thesis by simp
  next
    case False
    with Suc.prems have d: "0 \<le> depth - 1" "depth - 1 < int fuel" by auto
    have rec: "\<And>s' nb a be q. minimaxHelper fuel E P (depth - 1) nb s' a be q \<noteq> None"
      using Suc.IH [OF d] .
    have mx: "maxLoop (\<lambda>nb. minimaxHelper fuel E P (depth - 1) nb (opponentSide P))
        E b s ms a be q \<noteq> None" for ms a be q
      by (rule maxLoop_total) (rule rec)
    have mn: "minLoop (\<lambda>nb. minimaxHelper fuel E P (depth - 1) nb (side P))
        E b s ms a be q \<noteq> None" for ms a be q
      by (rule minLoop_total) (rule rec)
    show ?thesis
    proof (cases "s = side P")
      case True
      with False mx show ?thesis by (simp add: Let_def del: not_None_eq)
    next
      case s: False
      with False mn show ?thesis by (simp add: Let_def del: not_None_eq)
    qed
  qed
qed

lemma rootLoop_total:
  "(\<And>nb a q. rec nb a q \<noteq> None) \<Longrightarrow> rootLoop rec E P b ms alpha best st \<noteq> None"
proof (induction ms arbitrary: alpha best st)
  case Nil
  show ?case by simp
next
  case (Cons m ms)
  obtain r q where "rec (boardDoMove E b (Some m) (side P)) alpha (st\<lparr>liveBoards := liveBoards st + 1\<rparr>) = Some (r, q)"
    using Cons.prems [of "boardDoMove E b (Some m) (side P)" alpha "st\<lparr>liveBoards := liveBoards st + 1\<rparr>"]
    by (cases "rec (boardDoMove E b (Some m) (side P)) alpha (st\<lparr>liveBoards := liveBoards st + 1\<rparr>)") auto
  then show ?case
    using Cons.IH [OF Cons.prems] by (simp add: Let_def)
qed

lemma findMinimaxMove_total:
  assumes "1 \<le> depth" and "depth \<le> int fuel"
  shows "findMinimaxMove fuel E P depth st \<noteq> None"
proof -
  have "\<And>nb a q. minimaxHelper fuel E P (depth - 1) nb (opponentSide P) a INT_MAX q \<noteq> None"
    using assms by (intro minimaxHelper_total) auto
  then have "searchRoot fuel E P depth st \<noteq> None"
    unfolding searchRoot_def Let_def by (intro rootLoop_total)
  then show ?thesis
    by (auto simp: findMinimaxMove_def split: option.splits)
qed

lemma maxLoop_ge: "maxLoop rec E b s ms alpha beta st = Some (r, st') \<Longrightarrow> alpha \<le> r"
proof (induction ms arbitrary: alpha st)
  case Nil
  then show ?case by simp
next
  case (Cons m ms)
  then show ?case
    by (fastforce simp: Let_def split: option.splits if_splits)
qed

lemma minLoop_ge:
  assumes "\<And>nb a be q r q'. rec nb a be q = Some (r, q') \<Longrightarrow> L \<le> r"
  shows "minLoop rec E b s ms alpha beta st = Some (r, st') \<Longrightarrow> L \<le> beta \<Longrightarrow> L \<le> r"
proof (induction ms arbitrary: beta st)
  case Nil
  then show ?case by simp
next
  case (Cons m ms)
  then show ?case
    using assms by (fastforce simp: Let_def split: option.splits if_splits)
qed

lemma evaluate_ge: "INT_MIN \<le> fst (evaluate E P b st)"
  using sint32_range by (auto simp: evaluate_def Let_def split: option.splits)

lemma minimaxHelper_ge:
  "minimaxHelper fuel E P depth b s alpha beta st = Some (r, st') \<Longrightarrow> INT_MIN \<le> r"
proof (induction fuel arbitrary: depth b s alpha beta st r st')
  case 0
  then show ?case by simp
next
  case (Suc fuel)
  let ?st = "st\<lparr>liveMoves := liveMoves st + int (length (getPossibleMoves E b s))\<rparr>"
  consider (leaf0) "depth = 0" | (leaf1) "depth \<noteq> 0" "getPossibleMoves E b s = []"
    | (mx) "depth \<noteq> 0" "getPossibleMoves E b s \<noteq> []" "s = side P"
    | (mn) "depth \<noteq> 0" "getPossibleMoves E b s \<noteq> []" "s \<noteq> side P"
    by blast
  then show ?case
  proof cases
    case leaf0
    with Suc.prems show ?thesis using evaluate_ge [of E P b st] by auto
  next
    case leaf1
    with Suc.prems show ?thesis using evaluate_ge [of E P b ?st] by (auto simp: Let_def)
  next
    case mx
    with Suc.prems have "maxLoop (\<lambda>nb. minimaxHelper fuel E P (depth - 1) nb (opponentSide P))
        E b s (getPossibleMoves E b s) INT_MIN beta ?st = Some (r, st')"
      by (simp add: Let_def)
    then show ?thesis by (rule maxLoop_ge)
  next
    case mn
    with Suc.prems have "minLoop (\<lambda>nb. minimaxHelper fuel E P (depth - 1) nb (side P))
        E b s (getPossibleMoves E b s) alpha INT_MAX ?st = Some (r, st')"
      by (simp add: Let_def)
    then show ?thesis
      by (rule minLoop_ge [rotated]) (auto simp: INT_MIN_def INT_MAX_def dest: Suc.IH)
  qed
qed

lemma rootLoop_best_kept:
  "rootLoop rec E P b ms alpha best st = Some (a, bst, st') \<Longrightarrow> best \<noteq> None \<Longrightarrow> bst \<noteq> None"
proof (induction ms arbitrary: alpha best st)
  case Nil
  then show ?case by simp
next
  case (Cons m ms)
  then show ?case
    by (fastforce simp: Let_def split: option.splits if_splits)
qed

lemma rootLoop_best_found:
  assumes "\<And>nb a q r q'. rec nb a q = Some (r, q') \<Longrightarrow> alpha \<le> r"
    and "rootLoop rec E P b ms alpha None st = Some (a, bst, st')"
  shows "bst = None \<longleftrightarrow> ms = []"
proof (cases ms)
  case Nil
  with assms(2) show ?thesis by simp
next
  case (Cons m ms')
  obtain r q where r: "rec (boardDoMove E b (Some m) (side P)) alpha (st\<lparr>liveBoards := liveBoards st + 1\<rparr>) = Some (r, q)"
    using assms(2) Cons by (auto simp: Let_def split: option.splits)
  then have "alpha \<le> r" by (rule assms(1))
  with assms(2) Cons r have "rootLoop rec E P b ms' r (Some m) (q\<lparr>liveBoards := liveBoards q - 1\<rparr>) = Some (a, bst, st')"
    by (simp add: Let_def)
  then have "bst \<noteq> None" by (rule rootLoop_best_kept) simp
  with Cons show ?thesis by simp
qed

lemma findMinimaxMove_None_iff:
  assumes "findMinimaxMove fuel E P depth st = Some (m, st')"
  shows "m = None \<longleftrightarrow> getPossibleMoves E (board st) (side P) = []"
proof -
  obtain a where "searchRoot fuel E P depth st = Some (a, m, st')"
    using assms by (auto simp: findMinimaxMove_def split: option.splits)
  then show ?thesis
    unfolding searchRoot_def Let_def
    by (rule rootLoop_best_found [rotated]) (rule minimaxHelper_ge)
qed

section \<open>The example game\<close>

lemma toy_set_bit:
  "set_bit 0 (0::64 word) = 1" "set_bit (Suc 0) (0::64 word) = 2" "set_bit 2 (0::64 word) = 4"
  "set_bit (Suc 0) (1::64 word) = 3" "set_bit 2 (1::64 word) = 5"
  "set_bit 0 (2::64 word) = 3" "set_bit 2 (2::64 word) = 6"
  "set_bit 0 (4::64 word) = 5" "set_bit (Suc 0) (4::64 word) = 6"
  by (simp_all add: set_bit_eq_or)

lemmas toy_simps =
  toyGame_def testPlayer_def newPlayer_def emptyState_def emptyBoard_def toy_set_bit
  evaluate_def toyCount_def INT_MIN_def INT_MAX_def Let_def

lemma toy_moves_empty: "getPossibleMoves toyGame emptyBoard BLACK = [0, 1, 2]"
  by (simp add: toyGame_def emptyBoard_def)

lemma toy_searchRoot:
  "searchRoot (Suc (Suc 0)) toyGame (testPlayer BLACK) 2 (emptyState emptyBoard) =
     Some (0, Some 2, \<lparr>board = emptyBoard, table = [], liveBoards = 2, liveMoves = 7\<rparr>)"
  by (simp add: searchRoot_def toy_simps)

lemma toy_doMove:
  "doMove (Suc (Suc 0)) toyGame (testPlayer BLACK) [] None 0 (emptyState emptyBoard) =
     Some (Some 2, \<lparr>board = \<lparr>black = 4, taken = 4\<rparr>, table = [], liveBoards = 2, liveMoves = 7\<rparr>)"
  using toy_searchRoot
  by (simp add: doMove_def findMinimaxMove_def testPlayer_def)
     (simp add: toyGame_def emptyBoard_def toy_set_bit newPlayer_def)

text \<open>
  C6: with a time budget \<open>msLeft <= 0\<close>, \<open>doMove\<close> returns \<open>NULL\<close> exactly when the agent's
  side has no legal move on the board it searches (the held board after the opponent's
  move). The search returns whenever its depth (2 in testing mode, \<open>MINIMAXDEPTH\<close>
  otherwise) is at least 1: that many nested calls suffice.
\<close>

theorem doMove_no_budget:
  assumes "msLeft \<le> 0"
  shows "(doMove fuel E P clock opponentsMove msLeft st = Some (m, st') \<longrightarrow>
           (m = None \<longleftrightarrow>
            getPossibleMoves E
              (case opponentsMove of
                 None \<Rightarrow> board st
               | Some om \<Rightarrow> boardDoMove E (board st) (Some om) (opponentSide P))
              (side P) = [])) \<and>
         (1 \<le> (if testingMinimax P then 2 else MINIMAXDEPTH E) \<and>
          (if testingMinimax P then 2 else MINIMAXDEPTH E) \<le> int fuel \<longrightarrow>
            doMove fuel E P clock opponentsMove msLeft st \<noteq> None)"
proof -
  let ?st = "case opponentsMove of
               Some om \<Rightarrow> st\<lparr>board := boardDoMove E (board st) (Some om) (opponentSide P)\<rparr>
             | None \<Rightarrow> st"
  let ?d = "if testingMinimax P then 2 else MINIMAXDEPTH E"
  have b: "board ?st = (case opponentsMove of
                 None \<Rightarrow> board st
               | Some om \<Rightarrow> boardDoMove E (board st) (Some om) (opponentSide P))"
    by (simp split: option.splits)
  have unfold: "doMove fuel E P clock opponentsMove msLeft st =
      (case findMinimaxMove fuel E P ?d ?st of
         None \<Rightarrow> None
       | Some (m, q) \<Rightarrow> Some (m, q\<lparr>board := boardDoMove E (board q) m (side P)\<rparr>))"
    using assms by (simp add: doMove_def Let_def)
  have part1: "m = None \<longleftrightarrow> getPossibleMoves E (board ?st) (side P) = []"
    if "doMove fuel E P clock opponentsMove msLeft st = Some (m, st')"
  proof -
    from that obtain q where "findMinimaxMove fuel E P ?d ?st = Some (m, q)"
      unfolding unfold by (auto split: option.splits)
    then show ?thesis by (rule findMinimaxMove_None_iff)
  qed
  have part2: "doMove fuel E P clock opponentsMove msLeft st \<noteq> None"
    if "1 \<le> ?d" "?d \<le> int fuel"
  proof -
    have "findMinimaxMove fuel E P ?d ?st \<noteq> None"
      using that by (rule findMinimaxMove_total)
    then obtain m' q where "findMinimaxMove fuel E P ?d ?st = Some (m', q)"
      by auto
    then show ?thesis
      unfolding unfold by simp
  qed
  show ?thesis
    using part1 part2 unfolding b by blast
qed

theorem doMove_no_budget_witness:
  "(0::int) \<le> 0 \<and>
   doMove (Suc (Suc 0)) toyGame (testPlayer BLACK) [] None 0 (emptyState emptyBoard) =
     Some (Some 2, \<lparr>board = \<lparr>black = 4, taken = 4\<rparr>, table = [], liveBoards = 2, liveMoves = 7\<rparr>) \<and>
   getPossibleMoves toyGame (board (emptyState emptyBoard)) (side (testPlayer BLACK)) = [0, 1, 2] \<and>
   (Some (2::nat) = None) = (getPossibleMoves toyGame (board (emptyState emptyBoard)) (side (testPlayer BLACK)) = [])"
  using doMove_no_budget [of 0 "Suc (Suc 0)" toyGame "testPlayer BLACK" "[]" None "emptyState emptyBoard" "Some 2"
      "\<lparr>board = \<lparr>black = 4, taken = 4\<rparr>, table = [], liveBoards = 2, liveMoves = 7\<rparr>"]
    toy_doMove toy_moves_empty
  by (simp add: emptyState_def testPlayer_def newPlayer_def)

text \<open>
  C10: with a time budget \<open>0 < msLeft < 500\<close> the allowance \<open>msLeft / 500\<close> is zero, the
  loop of line 69 is left at its first test (the clock does not run backwards), no
  search is made, and \<open>doMove\<close> applies and returns \<open>NULL\<close>, whatever moves the agent has.
\<close>

theorem doMove_small_budget:
  assumes "0 < msLeft" and "msLeft < 500" and "start \<le> now"
  shows "doMove fuel E P (start # now # clock) opponentsMove msLeft st =
           Some (None,
                 (case opponentsMove of
                    Some om \<Rightarrow> st\<lparr>board := boardDoMove E (boardDoMove E (board st) (Some om) (opponentSide P)) None (side P)\<rparr>
                  | None \<Rightarrow> st\<lparr>board := boardDoMove E (board st) None (side P)\<rparr>))"
proof -
  have "msLeft div 500 = 0"
    using assms(1,2) by simp
  then show ?thesis
    using assms(1) timeLeft_zero [OF assms(3), of E]
    by (simp add: doMove_def Let_def split: option.splits)
qed


theorem doMove_small_budget_witness:
  "(0::int) < 499 \<and> (499::int) < 500 \<and> (5::int) \<le> 7 \<and>
   getPossibleMoves toyGame (board (emptyState emptyBoard)) (side (testPlayer BLACK)) = [0, 1, 2] \<and>
   doMove 2 toyGame (testPlayer BLACK) [5, 7] None 499 (emptyState emptyBoard) =
     Some (None, emptyState emptyBoard)"
  using doMove_small_budget [of 499 5 7 2 toyGame "testPlayer BLACK" "[]" None "emptyState emptyBoard"]
    toy_moves_empty
  by (simp add: emptyState_def testPlayer_def newPlayer_def) (simp add: toyGame_def)














text \<open>
  C4: a call of \<open>minimaxHelper\<close> that leaves its loop by \<open>break\<close> returns without the two
  \<open>delete\<close> statements of that pass. In the three-cell game the opponent's node after a
  black disc on cell 1 has two moves; with \<open>alpha = 0\<close> the first reply scores 0 and the
  loop breaks: the board copy and both moves stay allocated. The same call with
  \<open>alpha = INT_MIN\<close> does not break and releases all of them.
\<close>

theorem minimaxHelper_break_leaks:
  "minimaxHelper (Suc (Suc 0)) toyGame (testPlayer BLACK) 1 \<lparr>black = 2, taken = 2\<rparr> WHITE
       0 INT_MAX (emptyState emptyBoard) =
     Some (0, \<lparr>board = emptyBoard, table = [], liveBoards = 1, liveMoves = 2\<rparr>) \<and>
   minimaxHelper (Suc (Suc 0)) toyGame (testPlayer BLACK) 1 \<lparr>black = 2, taken = 2\<rparr> WHITE
       INT_MIN INT_MAX (emptyState emptyBoard) =
     Some (0, \<lparr>board = emptyBoard, table = [], liveBoards = 0, liveMoves = 0\<rparr>)"
  by (simp add: toy_simps)

section \<open>Fingerprints and the order of the table\<close>

lemma digit_inj: "a < 10 \<Longrightarrow> b < 10 \<Longrightarrow> digit a = digit b \<Longrightarrow> a = b"
  by (simp add: digit_def)

lemma digit_not_comma: "d < 10 \<Longrightarrow> digit d \<noteq> CHR '',''"
  by (simp add: digit_def char_of_eq_iff take_bit_eq_mod)

lemma to_string_not_Nil: "to_string n \<noteq> []"
  by (subst to_string.simps) simp

lemma to_string_digits: "c \<in> set (to_string n) \<Longrightarrow> \<exists>d<10. c = digit d"
proof (induction n rule: to_string.induct)
  case (1 n)
  show ?case
  proof (cases "n < 10")
    case True
    with "1.prems" show ?thesis by (subst (asm) to_string.simps) auto
  next
    case False
    with "1.prems" have "c \<in> set (to_string (n div 10)) \<or> c = digit (n mod 10)"
      by (subst (asm) to_string.simps) auto
    then show ?thesis
    proof
      assume "c \<in> set (to_string (n div 10))"
      then show ?thesis using "1.IH" [OF False] by blast
    next
      assume "c = digit (n mod 10)"
      then show ?thesis by (intro exI [of _ "n mod 10"]) simp
    qed
  qed
qed

lemma comma_notin_to_string: "CHR '','' \<notin> set (to_string n)"
  using to_string_digits [of "CHR '',''" n] digit_not_comma by metis

lemma to_string_inj: "to_string m = to_string n \<Longrightarrow> m = n"
proof (induction m arbitrary: n rule: to_string.induct)
  case (1 m)
  show ?case
  proof (cases "m < 10")
    case m: True
    show ?thesis
    proof (cases "n < 10")
      case True
      with m "1.prems" have "digit m = digit n"
        by (simp add: to_string.simps [of m] to_string.simps [of n])
      with m True show ?thesis by (rule digit_inj)
    next
      case False
      with m "1.prems" have "[digit m] = to_string (n div 10) @ [digit (n mod 10)]"
        by (simp add: to_string.simps [of m] to_string.simps [of n])
      then show ?thesis using to_string_not_Nil [of "n div 10"] by simp
    qed
  next
    case m: False
    show ?thesis
    proof (cases "n < 10")
      case True
      with m "1.prems" have "to_string (m div 10) @ [digit (m mod 10)] = [digit n]"
        by (simp add: to_string.simps [of m] to_string.simps [of n])
      then show ?thesis using to_string_not_Nil [of "m div 10"] by simp
    next
      case False
      with m "1.prems" have "to_string (m div 10) @ [digit (m mod 10)]
          = to_string (n div 10) @ [digit (n mod 10)]"
        by (simp add: to_string.simps [of m] to_string.simps [of n])
      then have a: "to_string (m div 10) = to_string (n div 10)"
        and b: "digit (m mod 10) = digit (n mod 10)" by simp_all
      have "m div 10 = n div 10" using "1.IH" [OF m a] .
      moreover have "m mod 10 = n mod 10" using b by (intro digit_inj) simp_all
      ultimately show ?thesis by (metis div_mult_mod_eq)
    qed
  qed
qed

lemma split_at_separator:
  "c \<notin> set xs \<Longrightarrow> c \<notin> set xs' \<Longrightarrow> xs @ c # r = xs' @ c # r' \<Longrightarrow> xs = xs' \<and> r = r'"
proof (induction xs arbitrary: xs')
  case Nil
  then show ?case by (cases xs') auto
next
  case (Cons x xs)
  then show ?case by (cases xs') auto
qed

lemma hashOf_inj:
  assumes "hashOf s b = hashOf s b'"
  shows "(if s = BLACK then black b else NOT (black b) AND taken b)
           = (if s = BLACK then black b' else NOT (black b') AND taken b') \<and> taken b = taken b'"
proof -
  let ?a = "if s = BLACK then black b else NOT (black b) AND taken b"
  let ?a' = "if s = BLACK then black b' else NOT (black b') AND taken b'"
  have "to_string (unat ?a) @ CHR '','' # (CHR '' '' # to_string (unat (taken b)))
      = to_string (unat ?a') @ CHR '','' # (CHR '' '' # to_string (unat (taken b')))"
    using assms by (simp add: hashOf_def Let_def)
  then have "to_string (unat ?a) = to_string (unat ?a')
      \<and> CHR '' '' # to_string (unat (taken b)) = CHR '' '' # to_string (unat (taken b'))"
    by (rule split_at_separator [OF comma_notin_to_string comma_notin_to_string])
  then have "unat ?a = unat ?a'" "unat (taken b) = unat (taken b')"
    by (auto dest: to_string_inj)
  then show ?thesis by (simp only: word_unat_eq_iff)
qed

lemma hashOf_numBoard_inj:
  assumes "m < 2 ^ 64" "n < 2 ^ 64" "hashOf BLACK (numBoard m) = hashOf BLACK (numBoard n)"
  shows "m = n"
proof -
  have "(of_nat m :: 64 word) = of_nat n"
    using hashOf_inj [OF assms(3)] by (simp add: numBoard_def)
  then have "unat (of_nat m :: 64 word) = unat (of_nat n :: 64 word)" by simp
  then show ?thesis using assms(1,2) by (simp add: unat_of_nat)
qed

lemma placeByKey_insort:
  "take (placeByKey (fst x) t) t @ x # drop (placeByKey (fst x) t) t = insort_key fst x t"
  by (induction t) (auto simp: placeByKey_def)

lemma tableInsert_insort:
  "place E = placeByKey \<Longrightarrow> tableInsert E h v t = insort_key fst (h, v) t"
  using placeByKey_insort [of "(h, v)" t] by (simp add: tableInsert_def Let_def)

lemma set_tableInsert: "set (tableInsert E h v t) = insert (h, v) (set t)"
proof -
  have "set (take (place E h t) t) \<union> set (drop (place E h t) t) = set t"
    by (metis append_take_drop_id set_append)
  then show ?thesis by (auto simp: tableInsert_def Let_def)
qed

lemma distinct_tableInsert:
  assumes "distinct (map fst t)" "h \<notin> fst ` set t"
  shows "distinct (map fst (tableInsert E h v t))"
proof -
  let ?n = "place E h t"
  have d: "distinct (map fst (take ?n t) @ map fst (drop ?n t))"
    using assms(1) by (metis append_take_drop_id map_append)
  have "h \<notin> set (map fst (take ?n t))" "h \<notin> set (map fst (drop ?n t))"
    using assms(2) by (auto dest: in_set_takeD in_set_dropD)
  with d show ?thesis by (auto simp: tableInsert_def Let_def)
qed

lemma evaluate_miss:
  assumes "\<not> testingMinimax P" "map_of (table st) (hashOf (side P) b) = None"
  shows "table (snd (evaluate E P b st)) =
     tableInsert E (hashOf (side P) b) (heuristic E (side P) b)
       (if 100000 \<le> length (table st) then tl (table st) else table st)"
  using assms by (simp add: evaluate_def Let_def)

lemma evaluate_hit:
  assumes "\<not> testingMinimax P" "map_of (table st) (hashOf (side P) b) = Some v"
  shows "evaluate E P b st = (sint v, st)"
  using assms by (simp add: evaluate_def Let_def)

lemma evaluate_keys:
  assumes "\<not> testingMinimax P" "length (table st) < 100000"
  shows "fst ` set (table (snd (evaluate E P b st))) = insert (hashOf (side P) b) (fst ` set (table st))"
proof (cases "map_of (table st) (hashOf (side P) b)")
  case None
  show ?thesis using assms(2) by (simp add: evaluate_miss [OF assms(1) None] set_tableInsert)
next
  case (Some v)
  then have "hashOf (side P) b \<in> fst ` set (table st)"
    by (metis map_of_eq_None_iff option.distinct(1))
  then show ?thesis by (auto simp: evaluate_hit [OF assms(1) Some])
qed

lemma evaluate_distinct:
  assumes "distinct (map fst (table st))"
  shows "distinct (map fst (table (snd (evaluate E P b st))))"
proof (cases "testingMinimax P")
  case True
  with assms show ?thesis by (simp add: evaluate_def)
next
  case False
  show ?thesis
  proof (cases "map_of (table st) (hashOf (side P) b)")
    case None
    let ?t = "if 100000 \<le> length (table st) then tl (table st) else table st"
    have "distinct (map fst ?t)" using assms by (simp add: distinct_tl map_tl)
    moreover have "hashOf (side P) b \<notin> fst ` set ?t"
      using None by (auto simp: map_of_eq_None_iff dest: list.set_sel(2) [rotated])
    ultimately show ?thesis unfolding evaluate_miss [OF False None] by (rule distinct_tableInsert)
  next
    case (Some v)
    with assms show ?thesis by (simp add: evaluate_hit [OF False Some])
  qed
qed

lemma evaluate_length_le: "length (table (snd (evaluate E P b st))) \<le> Suc (length (table st))"
  by (auto simp: evaluate_def Let_def length_tableInsert split: option.splits)

lemma evaluate_sorted:
  assumes "place E = placeByKey" "sorted (map fst (table st))"
  shows "sorted (map fst (table (snd (evaluate E P b st))))"
proof -
  have "sorted (map fst (tl (table st)))"
    using assms(2) by (simp add: map_tl sorted_tl)
  with assms show ?thesis
    by (auto simp: evaluate_def Let_def tableInsert_insort sorted_insort_key split: option.splits)
qed

lemma evaluateAll_keys:
  assumes "\<not> testingMinimax P"
  shows "length (table st) + length bs \<le> 100000 \<Longrightarrow>
    fst ` set (table (evaluateAll E P bs st)) = fst ` set (table st) \<union> hashOf (side P) ` set bs"
proof (induction bs arbitrary: st)
  case Nil
  show ?case by simp
next
  case (Cons b bs)
  have "length (table (snd (evaluate E P b st))) + length bs \<le> 100000"
    using evaluate_length_le [of E P b st] Cons.prems by simp
  from Cons.IH [OF this] evaluate_keys [OF assms, of st E b] Cons.prems
  show ?case by auto
qed

lemma evaluateAll_distinct:
  "distinct (map fst (table st)) \<Longrightarrow> distinct (map fst (table (evaluateAll E P bs st)))"
  by (induction bs arbitrary: st) (simp_all add: evaluate_distinct)

lemma evaluateAll_sorted:
  "place E = placeByKey \<Longrightarrow> sorted (map fst (table st)) \<Longrightarrow>
   sorted (map fst (table (evaluateAll E P bs st)))"
  by (induction bs arbitrary: st) (simp_all add: evaluate_sorted)

lemma newPlayer_simps [simp]:
  "side (newPlayer s) = s" "\<not> testingMinimax (newPlayer s)"
  by (simp_all add: newPlayer_def)

lemma noMoves_place: "place noMoves = placeByKey"
  by (simp add: noMoves_def)

lemma warm_indices: "set (2 # 1 # [3..<100001]) = {1..<100001}" "length (2 # 1 # [3..<100001]) = 100000"
  by (auto simp del: upt_rec_numeral)

lemma hashOf_numBoard_inj_on: "inj_on (\<lambda>n. hashOf BLACK (numBoard n)) {..<100002}"
proof (rule inj_onI)
  fix m n :: nat
  assume "m \<in> {..<100002}" "n \<in> {..<100002}"
  then have "m < 2 ^ 64" "n < 2 ^ 64" by simp_all
  moreover assume "hashOf BLACK (numBoard m) = hashOf BLACK (numBoard n)"
  ultimately show "m = n" by (rule hashOf_numBoard_inj)
qed

lemma warm_keys: "fst ` set (table warmState) = (\<lambda>n. hashOf BLACK (numBoard n)) ` {1..<100001}"
proof -
  have "length (table (emptyState emptyBoard)) + length warmBoards \<le> 100000"
    unfolding warmBoards_def length_map warm_indices by (simp add: emptyState_def)
  have "fst ` set (table (evaluateAll noMoves (newPlayer BLACK) warmBoards (emptyState emptyBoard)))
      = fst ` set (table (emptyState emptyBoard)) \<union> hashOf (side (newPlayer BLACK)) ` set warmBoards"
    by (rule evaluateAll_keys) (simp, fact)
  then have "fst ` set (table warmState) = hashOf BLACK ` set warmBoards"
    by (simp add: warmState_def emptyState_def)
  also have "\<dots> = (\<lambda>n. hashOf BLACK (numBoard n)) ` {1..<100001}"
    unfolding warmBoards_def set_map warm_indices by (simp only: image_image)
  finally show ?thesis .
qed

lemma warm_distinct: "distinct (map fst (table warmState))"
  unfolding warmState_def by (rule evaluateAll_distinct) (simp add: emptyState_def)

lemma warm_sorted: "sorted (map fst (table warmState))"
  unfolding warmState_def by (rule evaluateAll_sorted [OF noMoves_place]) (simp add: emptyState_def)

lemma warm_length: "length (table warmState) = 100000"
proof -
  have "length (table warmState) = card (set (map fst (table warmState)))"
    using distinct_card [OF warm_distinct] by simp
  also have "\<dots> = card ((\<lambda>n. hashOf BLACK (numBoard n)) ` {1..<100001})"
    using warm_keys by simp
  also have "\<dots> = card {1::nat..<100001}"
    by (rule card_image) (rule inj_on_subset [OF hashOf_numBoard_inj_on], auto)
  finally show ?thesis by simp
qed

lemma warm_new_key: "map_of (table warmState) (hashOf BLACK (numBoard 100001)) = None"
proof -
  have "hashOf BLACK (numBoard 100001) \<notin> (\<lambda>n. hashOf BLACK (numBoard n)) ` {1..<100001}"
  proof
    assume "hashOf BLACK (numBoard 100001) \<in> (\<lambda>n. hashOf BLACK (numBoard n)) ` {1..<100001}"
    then obtain n where n: "n \<in> {1..<100001}" "hashOf BLACK (numBoard 100001) = hashOf BLACK (numBoard n)"
      by blast
    have "100001 = n"
      by (rule inj_onD [OF hashOf_numBoard_inj_on n(2)]) (use n(1) in simp_all)
    with n(1) show False by simp
  qed
  then show ?thesis unfolding warm_keys [symmetric] by (simp add: map_of_eq_None_iff)
qed

lemma append_le_append: "xs @ ys \<le> xs @ zs \<longleftrightarrow> ys \<le> (zs :: 'a :: linorder list)"
  by (induction xs) simp_all

lemma digit_less: "a < b \<Longrightarrow> b < 10 \<Longrightarrow> digit a < digit b"
  by (simp add: digit_def less_char_def)

lemma to_string_leading: "0 < n \<Longrightarrow> \<exists>d r. to_string n = digit d # r \<and> 1 \<le> d \<and> d < 10"
proof (induction n rule: to_string.induct)
  case (1 n)
  show ?case
  proof (cases "n < 10")
    case True
    with "1.prems" show ?thesis
      by (subst to_string.simps) (auto intro: exI [of _ n])
  next
    case False
    then have "0 < n div 10" by simp
    from "1.IH" [OF False this] obtain d r where "to_string (n div 10) = digit d # r" "1 \<le> d" "d < 10"
      by blast
    with False show ?thesis
      by (subst to_string.simps) auto
  qed
qed

lemma to_string_1_least: "0 < n \<Longrightarrow> to_string 1 \<le> to_string n"
proof -
  assume "0 < n"
  from to_string_leading [OF this] obtain d r where d: "to_string n = digit d # r" "1 \<le> d" "d < 10"
    by blast
  have one: "to_string 1 = [digit 1]" by (subst to_string.simps) simp
  show ?thesis
  proof (cases "d = 1")
    case True
    with d one show ?thesis by simp
  next
    case False
    with d have "digit 1 < digit d" by (intro digit_less) simp_all
    with d one show ?thesis by simp
  qed
qed

lemma hashOf_numBoard: "n < 2 ^ 64 \<Longrightarrow> hashOf BLACK (numBoard n) = to_string 0 @ '', '' @ to_string n"
  by (simp add: hashOf_def numBoard_def unat_of_nat)

lemma warm_least_key:
  assumes "k \<in> fst ` set (table warmState)"
  shows "hashOf BLACK (numBoard 1) \<le> k"
proof -
  from assms obtain n where n: "n \<in> {1..<100001}" "k = hashOf BLACK (numBoard n)"
    unfolding warm_keys by blast
  then have "n < 2 ^ 64" "0 < n" by simp_all
  then show ?thesis
    unfolding n(2) using to_string_1_least [of n]
    by (simp add: hashOf_numBoard append_le_append del: append.simps)
qed

lemma sorted_hd_least: "sorted (map f xs) \<Longrightarrow> x \<in> set xs \<Longrightarrow> f (hd xs) \<le> f x"
  by (cases xs) auto

lemma warm_hd: "fst (hd (table warmState)) = hashOf BLACK (numBoard 1)"
proof -
  have ne: "table warmState \<noteq> []" using warm_length by auto
  have k1: "hashOf BLACK (numBoard 1) \<in> fst ` set (table warmState)"
    unfolding warm_keys by simp
  then obtain e where e: "e \<in> set (table warmState)" "fst e = hashOf BLACK (numBoard 1)" by auto
  have "fst (hd (table warmState)) \<le> hashOf BLACK (numBoard 1)"
    using sorted_hd_least [OF warm_sorted e(1)] e(2) by simp
  moreover have "hashOf BLACK (numBoard 1) \<le> fst (hd (table warmState))"
    using ne by (intro warm_least_key) simp
  ultimately show ?thesis by simp
qed

lemma warm_tl_keys:
  "fst ` set (tl (table warmState)) = fst ` set (table warmState) - {hashOf BLACK (numBoard 1)}"
proof -
  obtain e t where t: "table warmState = e # t"
    using warm_length by (cases "table warmState") auto
  with warm_hd warm_distinct show ?thesis by auto
qed

lemma warm_after:
  "table (snd (evaluate noMoves (newPlayer BLACK) (numBoard 100001) warmState)) =
     tableInsert noMoves (hashOf BLACK (numBoard 100001)) (heuristic noMoves BLACK (numBoard 100001))
       (tl (table warmState))"
  using evaluate_miss [of "newPlayer BLACK" warmState "numBoard 100001" noMoves] warm_new_key warm_length
  by simp

text \<open>
  C2, as the claim states it, fails for a table that is ordered by key. The run
  \<open>warmState\<close> evaluates 100000 boards with distinct fingerprints on an empty table, the
  board of 2 first and the board of 1 second. The table then holds 100000 entries. The
  call of \<open>evaluate\<close> on one more board evicts one entry: not the entry inserted first
  (the fingerprint of the board of 2 is still in the table) but the entry with the least
  key, which was inserted second.
\<close>

theorem eviction_not_fifo_counterexample:
  "length (table warmState) = 100000 \<and>
   map_of (table warmState) (hashOf BLACK (numBoard 100001)) = None \<and>
   length (table (snd (evaluate noMoves (newPlayer BLACK) (numBoard 100001) warmState))) = 100000 \<and>
   hashOf BLACK (numBoard 2)
     \<in> fst ` set (table (snd (evaluate noMoves (newPlayer BLACK) (numBoard 100001) warmState))) \<and>
   hashOf BLACK (numBoard 1)
     \<notin> fst ` set (table (snd (evaluate noMoves (newPlayer BLACK) (numBoard 100001) warmState)))"
proof -
  have ne12: "hashOf BLACK (numBoard 2) \<noteq> hashOf BLACK (numBoard 1)"
    using inj_onD [OF hashOf_numBoard_inj_on, of 2 1] by auto
  have ne1: "hashOf BLACK (numBoard 1) \<noteq> hashOf BLACK (numBoard 100001)"
    using inj_onD [OF hashOf_numBoard_inj_on, of 1 100001] by auto
  have k2: "hashOf BLACK (numBoard 2) \<in> fst ` set (table warmState)"
    unfolding warm_keys by simp
  have keys: "fst ` set (table (snd (evaluate noMoves (newPlayer BLACK) (numBoard 100001) warmState)))
      = insert (hashOf BLACK (numBoard 100001)) (fst ` set (table warmState) - {hashOf BLACK (numBoard 1)})"
    unfolding warm_after set_tableInsert by (simp add: warm_tl_keys)
  have len: "length (table (snd (evaluate noMoves (newPlayer BLACK) (numBoard 100001) warmState))) = 100000"
    unfolding warm_after length_tableInsert using warm_length by simp
  show ?thesis
    unfolding keys using warm_length warm_new_key len k2 ne12 ne1 by simp
qed

lemma map_of_tableInsert:
  assumes "distinct (map fst t)" "h \<notin> fst ` set t"
  shows "map_of (tableInsert E h v t) = (map_of t)(h \<mapsto> v)"
proof -
  have "distinct (map fst (tableInsert E h v t))"
    using assms by (rule distinct_tableInsert)
  moreover have "distinct (map fst ((h, v) # t))"
    using assms by simp
  moreover have "set (tableInsert E h v t) = set ((h, v) # t)"
    by (simp add: set_tableInsert)
  ultimately have "map_of (tableInsert E h v t) = map_of ((h, v) # t)"
    by (simp only: map_of_inject_set)
  then show ?thesis by simp
qed

lemma map_of_tl_distinct:
  assumes "distinct (map fst t)" "t \<noteq> []"
  shows "map_of (tl t) = (map_of t)(fst (hd t) := None)"
proof -
  obtain e t' where t: "t = e # t'" using assms(2) by (cases t) auto
  with assms(1) have "map_of t' (fst e) = None"
    by (simp add: map_of_eq_None_iff)
  then show ?thesis
    unfolding t by (cases e) (auto simp: fun_eq_iff)
qed

text \<open>
  C2, amended: in every state that calls of \<open>evaluate\<close> reach from the empty table, when
  the table holds 100000 entries and \<open>evaluate\<close> inserts a new fingerprint, exactly one
  existing entry is evicted and the table holds 100000 entries again: the table after the
  call maps the new fingerprint to its score, maps no longer the key at \<open>_table.begin()\<close>,
  the first in the iteration order of the container, and maps every other key as
  before. In a container ordered by key the evicted key is the least key of the table,
  whatever the order of the insertions was.
\<close>

theorem eviction_first_in_iteration_order:
  assumes "\<not> testingMinimax P"
    and "table st0 = []"
    and "length (table (evaluateAll E P bs st0)) = 100000"
    and "map_of (table (evaluateAll E P bs st0)) (hashOf (side P) b) = None"
  shows "let st = evaluateAll E P bs st0;
             st' = snd (evaluate E P b st);
             evicted = fst (hd (table st))
         in length (table st') = 100000 \<and>
            map_of (table st) evicted \<noteq> None \<and>
            map_of (table st') =
              (map_of (table st))(evicted := None, hashOf (side P) b \<mapsto> heuristic E (side P) b) \<and>
            (place E = placeByKey \<longrightarrow> (\<forall>k. map_of (table st) k \<noteq> None \<longrightarrow> evicted \<le> k))"
proof -
  define st where "st = evaluateAll E P bs st0"
  define h where "h = hashOf (side P) b"
  have d: "distinct (map fst (table st))"
    unfolding st_def by (rule evaluateAll_distinct) (simp add: assms(2))
  have len: "length (table st) = 100000" using assms(3) by (simp add: st_def)
  then have ne: "table st \<noteq> []" by auto
  have new: "map_of (table st) h = None" using assms(4) by (simp add: st_def h_def)
  have after: "table (snd (evaluate E P b st)) = tableInsert E h (heuristic E (side P) b) (tl (table st))"
    using evaluate_miss [OF assms(1), of st b E] new len by (simp add: h_def)
  have dtl: "distinct (map fst (tl (table st)))"
    using d by (simp add: distinct_tl map_tl)
  have htl: "h \<notin> fst ` set (tl (table st))"
    using map_of_tl_None [OF new] by (simp add: map_of_eq_None_iff)
  have 1: "length (table (snd (evaluate E P b st))) = 100000"
    unfolding after length_tableInsert using len ne by simp
  have 2: "map_of (table st) (fst (hd (table st))) \<noteq> None"
    using ne by (cases "table st") auto
  have 3: "map_of (table (snd (evaluate E P b st))) =
      (map_of (table st))(fst (hd (table st)) := None, h \<mapsto> heuristic E (side P) b)"
    unfolding after map_of_tableInsert [OF dtl htl] map_of_tl_distinct [OF d ne] ..
  have 4: "fst (hd (table st)) \<le> k" if "place E = placeByKey" "map_of (table st) k \<noteq> None" for k
  proof -
    have s: "sorted (map fst (table st))"
      unfolding st_def by (rule evaluateAll_sorted [OF that(1)]) (simp add: assms(2))
    from that(2) obtain v where "map_of (table st) k = Some v" by auto
    then have "(k, v) \<in> set (table st)" by (rule map_of_SomeD)
    from sorted_hd_least [OF s this] show ?thesis by simp
  qed
  show ?thesis
    using 1 2 3 4 unfolding Let_def st_def h_def by blast
qed

theorem eviction_first_in_iteration_order_witness:
  "\<not> testingMinimax (newPlayer BLACK) \<and>
   table (emptyState emptyBoard) = [] \<and>
   length (table (evaluateAll noMoves (newPlayer BLACK) warmBoards (emptyState emptyBoard))) = 100000 \<and>
   map_of (table (evaluateAll noMoves (newPlayer BLACK) warmBoards (emptyState emptyBoard)))
     (hashOf (side (newPlayer BLACK)) (numBoard 100001)) = None \<and>
   place noMoves = placeByKey \<and>
   map_of (table warmState) (hashOf BLACK (numBoard 2)) \<noteq> None \<and>
   length (table (snd (evaluate noMoves (newPlayer BLACK) (numBoard 100001) warmState))) = 100000 \<and>
   map_of (table warmState) (fst (hd (table warmState))) \<noteq> None \<and>
   map_of (table (snd (evaluate noMoves (newPlayer BLACK) (numBoard 100001) warmState))) =
     (map_of (table warmState))
       (fst (hd (table warmState)) := None,
        hashOf (side (newPlayer BLACK)) (numBoard 100001) \<mapsto>
          heuristic noMoves (side (newPlayer BLACK)) (numBoard 100001)) \<and>
   fst (hd (table warmState)) \<le> hashOf BLACK (numBoard 2)"
proof -
  have e: "table (emptyState emptyBoard) = []" by (simp add: emptyState_def)
  have l: "length (table (evaluateAll noMoves (newPlayer BLACK) warmBoards (emptyState emptyBoard))) = 100000"
    using warm_length by (simp only: warmState_def)
  have n: "map_of (table (evaluateAll noMoves (newPlayer BLACK) warmBoards (emptyState emptyBoard)))
     (hashOf (side (newPlayer BLACK)) (numBoard 100001)) = None"
    using warm_new_key by (simp add: warmState_def)
  have k2: "map_of (table warmState) (hashOf BLACK (numBoard 2)) \<noteq> None"
    unfolding map_of_eq_None_iff warm_keys by simp
  note inst = eviction_first_in_iteration_order [OF newPlayer_simps(2) e l n, unfolded Let_def,
      folded warmState_def]
  from inst noMoves_place k2 have least: "fst (hd (table warmState)) \<le> hashOf BLACK (numBoard 2)"
    by blast
  show ?thesis
    by (intro conjI newPlayer_simps(2) e l n noMoves_place k2 least
        inst [THEN conjunct1] inst [THEN conjunct2, THEN conjunct1]
        inst [THEN conjunct2, THEN conjunct2, THEN conjunct1])
qed

section \<open>Properties of the opening precomputation\<close>

lemma openingStep_Inr:
  assumes "openingStep E P q st = Inr (q', st')"
  shows "\<exists>cur rest. q = cur # rest \<and>
           table st' = table (snd (evaluate E P (snd cur) st)) \<and>
           q' = rest @ map (\<lambda>m. (if fst cur = BLACK then WHITE else BLACK,
                                   boardDoMove E (snd cur) (Some m) (fst cur)))
                         (getPossibleMoves E (snd cur) (fst cur))"
  using assms by (cases q) (auto simp: openingStep_def Let_def)

lemma openingStep_Cons:
  "\<exists>st'. openingStep E P (cur # rest) st =
      Inr (rest @ map (\<lambda>m. (if fst cur = BLACK then WHITE else BLACK,
                              boardDoMove E (snd cur) (Some m) (fst cur)))
                    (getPossibleMoves E (snd cur) (fst cur)), st')
    \<and> table st' = table (snd (evaluate E P (snd cur) st))"
  by (simp add: openingStep_def Let_def)

lemma openingAfter_bound:
  "openingAfter k E P q st = Some (q', st') \<Longrightarrow> length (table st) \<le> 25000 \<Longrightarrow>
   length (table st') \<le> 25000"
proof (induction k arbitrary: q st)
  case 0
  then show ?case by simp
next
  case (Suc k)
  from Suc.prems(1) have lt: "length (table st) < 25000"
    by (simp split: if_splits)
  with Suc.prems(1) obtain q1 st1 where step: "openingStep E P q st = Inr (q1, st1)"
    and rest: "openingAfter k E P q1 st1 = Some (q', st')"
    by (auto split: sum.splits)
  from openingStep_Inr [OF step] obtain cur where "table st1 = table (snd (evaluate E P (snd cur) st))"
    by auto
  then have "length (table st1) \<le> 25000"
    using evaluate_length_le [of E P "snd cur" st] lt by simp
  with rest show ?case by (rule Suc.IH)
qed

lemma openingLoop_exact:
  "openingLoop fuel E P q st = Some (Inr (q', st')) \<Longrightarrow> length (table st) \<le> 25000 \<Longrightarrow>
   length (table st') = 25000"
proof (induction fuel arbitrary: q st)
  case 0
  then show ?case by simp
next
  case (Suc fuel)
  show ?case
  proof (cases "length (table st) < 25000")
    case True
    with Suc.prems(1) obtain q1 st1 where step: "openingStep E P q st = Inr (q1, st1)"
      and rest: "openingLoop fuel E P q1 st1 = Some (Inr (q', st'))"
      by (auto split: sum.splits)
    from openingStep_Inr [OF step] obtain cur where "table st1 = table (snd (evaluate E P (snd cur) st))"
      by auto
    then have "length (table st1) \<le> 25000"
      using evaluate_length_le [of E P "snd cur" st] True by simp
    with rest show ?thesis by (rule Suc.IH)
  next
    case False
    with Suc.prems show ?thesis by simp
  qed
qed

lemma openingLoop_halts:
  assumes "\<not> testingMinimax P"
  shows "distinct (map fst (table st)) \<Longrightarrow> length (table st) \<le> 25000 \<Longrightarrow>
    25000 \<le> card (fst ` set (table st) \<union> hashOf (side P) ` set (bfsOrder n E q)) \<Longrightarrow>
    \<exists>fuel q' st'. openingLoop fuel E P q st = Some (Inr (q', st'))"
proof (induction n arbitrary: q st)
  case 0
  have "card (fst ` set (table st)) = length (table st)"
    using distinct_card [OF "0.prems"(1)] by simp
  with "0.prems" have "\<not> length (table st) < 25000" by simp
  then have "openingLoop (Suc 0) E P q st = Some (Inr (q, st))" by simp
  then show ?case by blast
next
  case (Suc n)
  have card: "card (fst ` set (table st)) = length (table st)"
    using distinct_card [OF Suc.prems(1)] by simp
  show ?case
  proof (cases "length (table st) < 25000")
    case False
    then have "openingLoop (Suc 0) E P q st = Some (Inr (q, st))" by simp
    then show ?thesis by blast
  next
    case True
    show ?thesis
    proof (cases q)
      case Nil
      with Suc.prems(3) card True show ?thesis by simp
    next
      case (Cons cur rest)
      let ?q = "rest @ map (\<lambda>m. (if fst cur = BLACK then WHITE else BLACK,
                                   boardDoMove E (snd cur) (Some m) (fst cur)))
                         (getPossibleMoves E (snd cur) (fst cur))"
      from openingStep_Cons [of E P cur rest st] obtain st1 where
        step: "openingStep E P (cur # rest) st = Inr (?q, st1)" and
        tab: "table st1 = table (snd (evaluate E P (snd cur) st))"
        by blast
      have keys: "fst ` set (table st1) = insert (hashOf (side P) (snd cur)) (fst ` set (table st))"
        unfolding tab using True by (intro evaluate_keys [OF assms]) simp
      have d: "distinct (map fst (table st1))"
        unfolding tab using Suc.prems(1) by (rule evaluate_distinct)
      have l: "length (table st1) \<le> 25000"
        unfolding tab using evaluate_length_le [of E P "snd cur" st] True by simp
      have "fst ` set (table st1) \<union> hashOf (side P) ` set (bfsOrder n E ?q)
          = fst ` set (table st) \<union> hashOf (side P) ` set (bfsOrder (Suc n) E q)"
        unfolding keys Cons by simp
      with Suc.prems(3) have "25000 \<le> card (fst ` set (table st1) \<union> hashOf (side P) ` set (bfsOrder n E ?q))"
        by simp
      from Suc.IH [OF d l this] obtain fuel q' st' where
        "openingLoop fuel E P ?q st1 = Some (Inr (q', st'))" by blast
      then have "openingLoop (Suc fuel) E P q st = Some (Inr (q', st'))"
        using True step Cons by simp
      then show ?thesis by blast
    qed
  qed
qed

text \<open>
  C3, amended: started on an empty table, as the constructor starts it,
  \<open>computeOpening\<close> never holds more than 25000 entries, after any number of passes
  through its loop; whenever it returns, the table holds exactly 25000 entries; and it
  returns when the boards of the game tree, taken in breadth-first order, have 25000
  distinct fingerprints among the first \<open>n\<close> of them, for some \<open>n\<close>.
\<close>

theorem computeOpening_cache_size:
  assumes "table st = []"
  shows "(\<forall>k q st'. openingAfter k E P [(side P, board st)] (st\<lparr>liveBoards := liveBoards st + 1\<rparr>)
              = Some (q, st') \<longrightarrow> length (table st') \<le> 25000) \<and>
         (\<forall>fuel st'. computeOpening fuel E P st = Some (Inr st') \<longrightarrow> length (table st') = 25000) \<and>
         (\<not> testingMinimax P \<and>
          25000 \<le> card (hashOf (side P) ` set (bfsOrder n E [(side P, board st)])) \<longrightarrow>
            (\<exists>fuel st'. computeOpening fuel E P st = Some (Inr st')))"
proof (intro conjI allI impI)
  let ?st = "st\<lparr>liveBoards := liveBoards st + 1\<rparr>"
  have t: "table ?st = []" using assms by simp
  {
    fix k q st'
    assume "openingAfter k E P [(side P, board st)] ?st = Some (q, st')"
    then show "length (table st') \<le> 25000"
      by (rule openingAfter_bound) (simp add: t)
  next
    fix fuel st'
    assume "computeOpening fuel E P st = Some (Inr st')"
    then obtain q st1 where run: "openingLoop fuel E P [(side P, board st)] ?st = Some (Inr (q, st1))"
      and st': "st' = st1\<lparr>liveBoards := liveBoards st1 - int (length q)\<rparr>"
      by (auto simp: computeOpening_def Let_def split: option.splits sum.splits)
    have "length (table st1) = 25000"
      using run by (rule openingLoop_exact) (simp add: t)
    then show "length (table st') = 25000" by (simp add: st')
  next
    assume a: "\<not> testingMinimax P \<and>
          25000 \<le> card (hashOf (side P) ` set (bfsOrder n E [(side P, board st)]))"
    then have "\<exists>fuel q' st'. openingLoop fuel E P [(side P, board st)] ?st = Some (Inr (q', st'))"
      using openingLoop_halts [of P ?st n E "[(side P, board st)]"] by (simp add: t)
    then obtain fuel q' st' where "openingLoop fuel E P [(side P, board st)] ?st = Some (Inr (q', st'))"
      by blast
    then have "computeOpening fuel E P st =
        Some (Inr (st'\<lparr>liveBoards := liveBoards st' - int (length q')\<rparr>))"
      by (simp add: computeOpening_def Let_def)
    then show "\<exists>fuel st'. computeOpening fuel E P st = Some (Inr st')" by blast
  }
qed

text \<open>
  C3, as the claim states it, fails on a game tree with fewer than 25000 fingerprints.
  In the game without moves the queue is empty after the first pass, the table holds
  one entry, and the second pass reads \<open>positions.front()\<close> of the empty queue:
  \<open>computeOpening\<close> does not return with fewer entries.
\<close>

theorem computeOpening_small_tree_counterexample:
  "computeOpening (Suc (Suc (Suc 0))) noMoves (newPlayer BLACK) (emptyState board1)
     = Some (Inl FrontOfEmptyVector)"
  by (simp add: computeOpening_def openingStep_def evaluate_def newPlayer_def emptyState_def
      noMoves_def tableInsert_def Let_def)


lemma chain_step: "boardDoMove chainGame (numBoard k) (Some m) s = numBoard (Suc k)"
  by (simp add: chainGame_def numBoard_def)

lemma bfs_chain: "bfsOrder n chainGame [(s, numBoard k)] = map numBoard [k..<k + n]"
proof (induction n arbitrary: s k)
  case 0
  show ?case by simp
next
  case (Suc n)
  have "bfsOrder (Suc n) chainGame [(s, numBoard k)]
      = numBoard k # bfsOrder n chainGame [(if s = BLACK then WHITE else BLACK, numBoard (Suc k))]"
    by (simp add: chain_step) (simp add: chainGame_def)
  also have "\<dots> = numBoard k # map numBoard [Suc k..<Suc k + n]"
    by (simp only: Suc.IH)
  also have "\<dots> = map numBoard [k..<k + Suc n]"
    by (simp add: upt_conv_Cons del: upt_Suc)
  finally show ?case .
qed

lemma chain_fingerprints:
  "card (hashOf BLACK ` set (bfsOrder 25000 chainGame [(BLACK, numBoard 0)])) = 25000"
proof -
  have "hashOf BLACK ` set (bfsOrder 25000 chainGame [(BLACK, numBoard 0)])
      = (\<lambda>n. hashOf BLACK (numBoard n)) ` {0..<25000}"
    unfolding bfs_chain set_map by (simp only: image_image add_0 set_upt)
  moreover have "card ((\<lambda>n. hashOf BLACK (numBoard n)) ` {0..<25000}) = card {0::nat..<25000}"
    by (rule card_image) (rule inj_on_subset [OF hashOf_numBoard_inj_on], auto)
  ultimately show ?thesis by simp
qed

theorem computeOpening_cache_size_witness:
  "table (emptyState (numBoard 0)) = [] \<and>
   \<not> testingMinimax (newPlayer BLACK) \<and>
   25000 \<le> card (hashOf (side (newPlayer BLACK)) `
                  set (bfsOrder 25000 chainGame
                         [(side (newPlayer BLACK), board (emptyState (numBoard 0)))])) \<and>
   (\<exists>fuel st'. computeOpening fuel chainGame (newPlayer BLACK) (emptyState (numBoard 0)) = Some (Inr st')
        \<and> length (table st') = 25000)"
proof -
  have t: "table (emptyState (numBoard 0)) = []"
    by (simp add: emptyState_def)
  have c: "25000 \<le> card (hashOf (side (newPlayer BLACK)) `
                  set (bfsOrder 25000 chainGame
                         [(side (newPlayer BLACK), board (emptyState (numBoard 0)))]))"
    using chain_fingerprints by (simp add: emptyState_def)
  note inst = computeOpening_cache_size [OF t, of chainGame "newPlayer BLACK" 25000]
  from inst c obtain fuel st' where
    run: "computeOpening fuel chainGame (newPlayer BLACK) (emptyState (numBoard 0)) = Some (Inr st')"
    using newPlayer_simps(2) by blast
  with inst have "length (table st') = 25000" by blast
  with run t c newPlayer_simps(2) show ?thesis by blast
qed

section \<open>Pruned and unpruned search\<close>

lemma wellFormed_bit: "wellFormed b \<Longrightarrow> bit (black b) n \<Longrightarrow> bit (taken b) n"
proof -
  assume "wellFormed b" and n: "bit (black b) n"
  then have "bit (black b AND NOT (taken b)) n = bit (0 :: 64 word) n"
    by (simp only: wellFormed_def)
  moreover have "n < 64"
    using bit_imp_le_length [OF n] by simp
  ultimately show ?thesis
    using n by (simp add: bit_and_iff bit_not_iff)
qed

lemma wellFormed_black:
  assumes "wellFormed b" "wellFormed b'" "taken b = taken b'"
    and "NOT (black b) AND taken b = NOT (black b') AND taken b'"
  shows "black b = black b'"
proof (rule bit_word_eqI)
  fix n
  assume n: "n < LENGTH(64)"
  have "bit (NOT (black b) AND taken b) n = bit (NOT (black b') AND taken b') n"
    using assms(4) by simp
  then have "(\<not> bit (black b) n \<and> bit (taken b) n) = (\<not> bit (black b') n \<and> bit (taken b') n)"
    using n by (simp add: bit_and_iff bit_not_iff)
  with wellFormed_bit [OF assms(1), of n] wellFormed_bit [OF assms(2), of n] assms(3)
  show "bit (black b) n = bit (black b') n"
    by auto
qed

lemma hash_heuristic:
  assumes "wellFormed b" "wellFormed b'" "hashOf s b = hashOf s b'"
  shows "heuristic E s b = heuristic E s b'"
proof -
  from hashOf_inj [OF assms(3)] have t: "taken b = taken b'"
    and a: "(if s = BLACK then black b else NOT (black b) AND taken b)
           = (if s = BLACK then black b' else NOT (black b') AND taken b')"
    by simp_all
  have "black b = black b'"
  proof (cases "s = BLACK")
    case True
    with a show ?thesis by simp
  next
    case False
    with a have "NOT (black b) AND taken b = NOT (black b') AND taken b'" by simp
    with assms(1,2) t show ?thesis by (rule wellFormed_black)
  qed
  with t show ?thesis by (simp add: heuristic_def)
qed

lemma tableOK_tableInsert:
  assumes "tableOK E P t" "wellFormed b"
  shows "tableOK E P (tableInsert E (hashOf (side P) b) (heuristic E (side P) b) t)"
  unfolding tableOK_def set_tableInsert
proof (intro ballI allI impI)
  fix e b'
  assume e: "e \<in> insert (hashOf (side P) b, heuristic E (side P) b) (set t)"
    and b': "wellFormed b' \<and> hashOf (side P) b' = fst e"
  show "snd e = heuristic E (side P) b'"
  proof (cases "e = (hashOf (side P) b, heuristic E (side P) b)")
    case True
    with b' have "hashOf (side P) b = hashOf (side P) b'" by simp
    with assms(2) b' have "heuristic E (side P) b = heuristic E (side P) b'"
      by (intro hash_heuristic) simp_all
    with True show ?thesis by simp
  next
    case False
    with e have "e \<in> set t" by simp
    with assms(1) b' show ?thesis unfolding tableOK_def by blast
  qed
qed

lemma tableOK_tl: "tableOK E P t \<Longrightarrow> tableOK E P (tl t)"
  by (cases t) (auto simp: tableOK_def)

lemma evaluate_value:
  assumes "tableOK E P (table st)" "wellFormed b"
  shows "fst (evaluate E P b st) = leafScore E P b \<and> tableOK E P (table (snd (evaluate E P b st)))"
proof (cases "testingMinimax P")
  case True
  with assms show ?thesis by (simp add: evaluate_def leafScore_def)
next
  case False
  show ?thesis
  proof (cases "map_of (table st) (hashOf (side P) b)")
    case None
    have "fst (evaluate E P b st) = leafScore E P b"
      using False None by (simp add: evaluate_def leafScore_def Let_def)
    moreover have "tableOK E P (table (snd (evaluate E P b st)))"
      unfolding evaluate_miss [OF False None]
      using assms by (auto intro: tableOK_tableInsert tableOK_tl)
    ultimately show ?thesis ..
  next
    case (Some v)
    then have "(hashOf (side P) b, v) \<in> set (table st)" by (rule map_of_SomeD)
    with assms have "v = heuristic E (side P) b"
      unfolding tableOK_def by (metis fst_conv snd_conv)
    with False assms show ?thesis
      by (simp add: evaluate_hit [OF False Some] leafScore_def)
  qed
qed

lemma evaluate_value':
  assumes "tableOK E P (table st)" "wellFormed b"
  shows "\<exists>st'. evaluate E P b st = (leafScore E P b, st') \<and> tableOK E P (table st')"
  using evaluate_value [OF assms] by (cases "evaluate E P b st") auto

lemma maxValue_ge: "maxValue recV E b s ms best = Some V \<Longrightarrow> best \<le> V"
proof (induction ms arbitrary: best)
  case Nil
  then show ?case by simp
next
  case (Cons m ms)
  then show ?case by (fastforce split: option.splits)
qed

lemma minValue_le: "minValue recV E b s ms best = Some V \<Longrightarrow> V \<le> best"
proof (induction ms arbitrary: best)
  case Nil
  then show ?case by simp
next
  case (Cons m ms)
  then show ?case by (fastforce split: option.splits)
qed

lemma wellFormed_move:
  "movesKeepWellFormed E \<Longrightarrow> wellFormed b \<Longrightarrow> wellFormed (boardDoMove E b (Some m) s)"
  by (simp add: movesKeepWellFormed_def)

lemma fullMaxLoop_value:
  assumes child: "\<And>nb st r st'. wellFormed nb \<Longrightarrow> tableOK E P (table st) \<Longrightarrow>
      recF nb st = Some (r, st') \<Longrightarrow> recV nb = Some r \<and> tableOK E P (table st')"
    and wf: "movesKeepWellFormed E" "wellFormed b"
  shows "tableOK E P (table st) \<Longrightarrow> fullMaxLoop recF E b s ms best st = Some (r, st') \<Longrightarrow>
         maxValue recV E b s ms best = Some r \<and> tableOK E P (table st')"
proof (induction ms arbitrary: best st)
  case Nil
  then show ?case by simp
next
  case (Cons m ms)
  let ?nb = "boardDoMove E b (Some m) s"
  from Cons.prems(2) obtain r1 st1 where r1: "recF ?nb st = Some (r1, st1)"
    and rest: "fullMaxLoop recF E b s ms (max best r1) st1 = Some (r, st')"
    by (auto split: option.splits)
  have "wellFormed ?nb" using wf by (rule wellFormed_move)
  from child [OF this Cons.prems(1) r1] have v: "recV ?nb = Some r1" and ok: "tableOK E P (table st1)"
    by simp_all
  from Cons.IH [OF ok rest] v show ?case by simp
qed

lemma fullMinLoop_value:
  assumes child: "\<And>nb st r st'. wellFormed nb \<Longrightarrow> tableOK E P (table st) \<Longrightarrow>
      recF nb st = Some (r, st') \<Longrightarrow> recV nb = Some r \<and> tableOK E P (table st')"
    and wf: "movesKeepWellFormed E" "wellFormed b"
  shows "tableOK E P (table st) \<Longrightarrow> fullMinLoop recF E b s ms best st = Some (r, st') \<Longrightarrow>
         minValue recV E b s ms best = Some r \<and> tableOK E P (table st')"
proof (induction ms arbitrary: best st)
  case Nil
  then show ?case by simp
next
  case (Cons m ms)
  let ?nb = "boardDoMove E b (Some m) s"
  from Cons.prems(2) obtain r1 st1 where r1: "recF ?nb st = Some (r1, st1)"
    and rest: "fullMinLoop recF E b s ms (min best r1) st1 = Some (r, st')"
    by (auto split: option.splits)
  have "wellFormed ?nb" using wf by (rule wellFormed_move)
  from child [OF this Cons.prems(1) r1] have v: "recV ?nb = Some r1" and ok: "tableOK E P (table st1)"
    by simp_all
  from Cons.IH [OF ok rest] v show ?case by simp
qed

lemma fullMinimax_value:
  assumes wf: "movesKeepWellFormed E"
  shows "wellFormed b \<Longrightarrow> tableOK E P (table st) \<Longrightarrow>
         fullMinimax fuel E P depth b s st = Some (r, st') \<Longrightarrow>
         nodeValue fuel E P depth b s = Some r \<and> tableOK E P (table st')"
proof (induction fuel arbitrary: depth b s st r st')
  case 0
  then show ?case by simp
next
  case (Suc fuel)
  note child = Suc.IH
  consider (leaf0) "depth = 0" | (leaf1) "depth \<noteq> 0" "getPossibleMoves E b s = []"
    | (mx) "depth \<noteq> 0" "getPossibleMoves E b s \<noteq> []" "s = side P"
    | (mn) "depth \<noteq> 0" "getPossibleMoves E b s \<noteq> []" "s \<noteq> side P"
    by blast
  then show ?case
  proof cases
    case leaf0
    then have "evaluate E P b st = (r, st')"
      using Suc.prems(3) by simp
    with evaluate_value [OF Suc.prems(2,1)] leaf0 show ?thesis
      by simp
  next
    case leaf1
    then have "evaluate E P b st = (r, st')"
      using Suc.prems(3) by (simp add: Let_def)
    with evaluate_value [OF Suc.prems(2,1)] leaf1 show ?thesis
      by (simp add: Let_def)
  next
    case mx
    with Suc.prems(3) have "fullMaxLoop (\<lambda>nb. fullMinimax fuel E P (depth - 1) nb (opponentSide P))
        E b s (getPossibleMoves E b s) INT_MIN st = Some (r, st')"
      by (simp add: Let_def)
    from fullMaxLoop_value [where recV = "\<lambda>nb. nodeValue fuel E P (depth - 1) nb (opponentSide P)",
        OF child wf Suc.prems(1,2) this] mx
    show ?thesis by (simp add: Let_def)
  next
    case mn
    with Suc.prems(3) have "fullMinLoop (\<lambda>nb. fullMinimax fuel E P (depth - 1) nb (side P))
        E b s (getPossibleMoves E b s) INT_MAX st = Some (r, st')"
      by (simp add: Let_def)
    from fullMinLoop_value [where recV = "\<lambda>nb. nodeValue fuel E P (depth - 1) nb (side P)",
        OF child wf Suc.prems(1,2) this] mn
    show ?thesis by (simp add: Let_def)
  qed
qed

lemma maxLoop_value:
  assumes child: "\<And>nb a be st v. wellFormed nb \<Longrightarrow> tableOK E P (table st) \<Longrightarrow> recV nb = Some v \<Longrightarrow>
      \<exists>r st'. recH nb a be st = Some (r, st') \<and> tableOK E P (table st') \<and> max a r = max a v"
    and wf: "movesKeepWellFormed E" "wellFormed b"
  shows "tableOK E P (table st) \<Longrightarrow> maxValue recV E b s ms alpha = Some V \<Longrightarrow>
         \<exists>r st'. maxLoop recH E b s ms alpha beta st = Some (r, st') \<and> tableOK E P (table st') \<and>
                 min beta r = min beta V"
proof (induction ms arbitrary: alpha st)
  case Nil
  then show ?case by simp
next
  case (Cons m ms)
  let ?nb = "boardDoMove E b (Some m) s"
  let ?st = "st\<lparr>liveBoards := liveBoards st + 1\<rparr>"
  from Cons.prems(2) obtain v where v: "recV ?nb = Some v"
    and rest: "maxValue recV E b s ms (max alpha v) = Some V"
    by (auto split: option.splits)
  have nb: "wellFormed ?nb" using wf by (rule wellFormed_move)
  have "tableOK E P (table ?st)" using Cons.prems(1) by simp
  from child [OF nb this v, of alpha beta] obtain r1 st1 where
    r1: "recH ?nb alpha beta ?st = Some (r1, st1)" and ok: "tableOK E P (table st1)"
    and eq: "max alpha r1 = max alpha v"
    by blast
  show ?case
  proof (cases "beta \<le> max alpha r1")
    case True
    have "max alpha v \<le> V" using rest by (rule maxValue_ge)
    with True eq have "min beta (max alpha r1) = min beta V" by linarith
    with True r1 ok show ?thesis by (simp add: Let_def)
  next
    case False
    let ?st1 = "st1\<lparr>liveMoves := liveMoves st1 - 1, liveBoards := liveBoards st1 - 1\<rparr>"
    have "tableOK E P (table ?st1)" using ok by simp
    moreover have "maxValue recV E b s ms (max alpha r1) = Some V"
      using rest by (simp only: eq)
    ultimately obtain r st' where
      "maxLoop recH E b s ms (max alpha r1) beta ?st1 = Some (r, st')" "tableOK E P (table st')"
      "min beta r = min beta V"
      using Cons.IH [of ?st1 "max alpha r1"] by blast
    with False r1 show ?thesis by (simp add: Let_def)
  qed
qed

lemma minLoop_value:
  assumes child: "\<And>nb a be st v. wellFormed nb \<Longrightarrow> tableOK E P (table st) \<Longrightarrow> recV nb = Some v \<Longrightarrow>
      \<exists>r st'. recH nb a be st = Some (r, st') \<and> tableOK E P (table st') \<and> min be r = min be v"
    and wf: "movesKeepWellFormed E" "wellFormed b"
  shows "tableOK E P (table st) \<Longrightarrow> minValue recV E b s ms beta = Some V \<Longrightarrow>
         \<exists>r st'. minLoop recH E b s ms alpha beta st = Some (r, st') \<and> tableOK E P (table st') \<and>
                 max alpha r = max alpha V"
proof (induction ms arbitrary: beta st)
  case Nil
  then show ?case by simp
next
  case (Cons m ms)
  let ?nb = "boardDoMove E b (Some m) s"
  let ?st = "st\<lparr>liveBoards := liveBoards st + 1\<rparr>"
  from Cons.prems(2) obtain v where v: "recV ?nb = Some v"
    and rest: "minValue recV E b s ms (min beta v) = Some V"
    by (auto split: option.splits)
  have nb: "wellFormed ?nb" using wf by (rule wellFormed_move)
  have "tableOK E P (table ?st)" using Cons.prems(1) by simp
  from child [OF nb this v, of alpha beta] obtain r1 st1 where
    r1: "recH ?nb alpha beta ?st = Some (r1, st1)" and ok: "tableOK E P (table st1)"
    and eq: "min beta r1 = min beta v"
    by blast
  show ?case
  proof (cases "min beta r1 \<le> alpha")
    case True
    have "V \<le> min beta v" using rest by (rule minValue_le)
    with True eq have "max alpha (min beta r1) = max alpha V" by linarith
    with True r1 ok show ?thesis by (simp add: Let_def)
  next
    case False
    let ?st1 = "st1\<lparr>liveMoves := liveMoves st1 - 1, liveBoards := liveBoards st1 - 1\<rparr>"
    have "tableOK E P (table ?st1)" using ok by simp
    moreover have "minValue recV E b s ms (min beta r1) = Some V"
      using rest by (simp only: eq)
    ultimately obtain r st' where
      "minLoop recH E b s ms alpha (min beta r1) ?st1 = Some (r, st')" "tableOK E P (table st')"
      "max alpha r = max alpha V"
      using Cons.IH [of ?st1 "min beta r1"] by blast
    with False r1 show ?thesis by (simp add: Let_def)
  qed
qed

lemma step_mx:
  assumes IH: "\<And>depth b s alpha beta st v. wellFormed b \<Longrightarrow> tableOK E P (table st) \<Longrightarrow>
         nodeValue fuel E P depth b s = Some v \<Longrightarrow>
         \<exists>r st'. minimaxHelper fuel E P depth b s alpha beta st = Some (r, st') \<and>
                 tableOK E P (table st') \<and>
                 (if s = side P then min beta r = min beta v else max alpha r = max alpha v)"
   and sides: "opponentSide P \<noteq> side P" and wf: "movesKeepWellFormed E"
   and prems: "wellFormed b" "tableOK E P (table st)" "nodeValue (Suc fuel) E P depth b s = Some v"
   and mx: "depth \<noteq> 0" "getPossibleMoves E b s \<noteq> []" "s = side P"
  shows "\<exists>r st'. minimaxHelper (Suc fuel) E P depth b s alpha beta st = Some (r, st') \<and>
                 tableOK E P (table st') \<and> min beta r = min beta v"
proof -
  let ?ms = "getPossibleMoves E b s"
  let ?st = "st\<lparr>liveMoves := liveMoves st + int (length ?ms)\<rparr>"
  have ok: "tableOK E P (table ?st)" using prems(2) by simp
  have val: "maxValue (\<lambda>nb. nodeValue fuel E P (depth - 1) nb (opponentSide P))
        E b s ?ms INT_MIN = Some v"
    using prems(3) mx by (simp add: Let_def)
  have child: "\<exists>r st'. minimaxHelper fuel E P (depth - 1) nb (opponentSide P) a be q = Some (r, st')
        \<and> tableOK E P (table st') \<and> max a r = max a w"
      if "wellFormed nb" "tableOK E P (table q)" "nodeValue fuel E P (depth - 1) nb (opponentSide P) = Some w"
      for nb a be q w
      using IH [OF that, of a be] sides by simp
  have loop: "\<exists>r st'. maxLoop (\<lambda>nb. minimaxHelper fuel E P (depth - 1) nb (opponentSide P))
         E b s ?ms INT_MIN beta ?st = Some (r, st') \<and> tableOK E P (table st') \<and> min beta r = min beta v"
    by (rule maxLoop_value [where recV = "\<lambda>nb. nodeValue fuel E P (depth - 1) nb (opponentSide P)",
        OF child wf prems(1) ok val])
  have unfold: "minimaxHelper (Suc fuel) E P depth b s alpha beta st =
      maxLoop (\<lambda>nb. minimaxHelper fuel E P (depth - 1) nb (opponentSide P)) E b s ?ms INT_MIN beta ?st"
    using mx by (simp add: Let_def)
  show ?thesis
    unfolding unfold by (rule loop)
qed


lemma step_mn:
  assumes IH: "\<And>depth b s alpha beta st v. wellFormed b \<Longrightarrow> tableOK E P (table st) \<Longrightarrow>
         nodeValue fuel E P depth b s = Some v \<Longrightarrow>
         \<exists>r st'. minimaxHelper fuel E P depth b s alpha beta st = Some (r, st') \<and>
                 tableOK E P (table st') \<and>
                 (if s = side P then min beta r = min beta v else max alpha r = max alpha v)"
   and wf: "movesKeepWellFormed E"
   and prems: "wellFormed b" "tableOK E P (table st)" "nodeValue (Suc fuel) E P depth b s = Some v"
   and mn: "depth \<noteq> 0" "getPossibleMoves E b s \<noteq> []" "s \<noteq> side P"
  shows "\<exists>r st'. minimaxHelper (Suc fuel) E P depth b s alpha beta st = Some (r, st') \<and>
                 tableOK E P (table st') \<and> max alpha r = max alpha v"
proof -
  let ?ms = "getPossibleMoves E b s"
  let ?st = "st\<lparr>liveMoves := liveMoves st + int (length ?ms)\<rparr>"
  have ok: "tableOK E P (table ?st)" using prems(2) by simp
  have val: "minValue (\<lambda>nb. nodeValue fuel E P (depth - 1) nb (side P))
        E b s ?ms INT_MAX = Some v"
    using prems(3) mn by (simp add: Let_def)
  have child: "\<exists>r st'. minimaxHelper fuel E P (depth - 1) nb (side P) a be q = Some (r, st')
        \<and> tableOK E P (table st') \<and> min be r = min be w"
      if "wellFormed nb" "tableOK E P (table q)" "nodeValue fuel E P (depth - 1) nb (side P) = Some w"
      for nb a be q w
      using IH [OF that, of a be] by simp
  have loop: "\<exists>r st'. minLoop (\<lambda>nb. minimaxHelper fuel E P (depth - 1) nb (side P))
         E b s ?ms alpha INT_MAX ?st = Some (r, st') \<and> tableOK E P (table st') \<and> max alpha r = max alpha v"
    by (rule minLoop_value [where recV = "\<lambda>nb. nodeValue fuel E P (depth - 1) nb (side P)",
        OF child wf prems(1) ok val])
  have unfold: "minimaxHelper (Suc fuel) E P depth b s alpha beta st =
      minLoop (\<lambda>nb. minimaxHelper fuel E P (depth - 1) nb (side P)) E b s ?ms alpha INT_MAX ?st"
    using mn by (simp add: Let_def)
  show ?thesis
    unfolding unfold by (rule loop)
qed

lemma step_leaf:
  assumes prems: "wellFormed b" "tableOK E P (table st)" "nodeValue (Suc fuel) E P depth b s = Some v"
   and leaf: "depth = 0 \<or> getPossibleMoves E b s = []"
  shows "\<exists>r st'. minimaxHelper (Suc fuel) E P depth b s alpha beta st = Some (r, st') \<and>
                 tableOK E P (table st') \<and> r = v"
proof -
  let ?st = "if depth = 0 then st
             else st\<lparr>liveMoves := liveMoves st + int (length (getPossibleMoves E b s))\<rparr>"
  have ok: "tableOK E P (table ?st)" using prems(2) by simp
  have v: "v = leafScore E P b"
    using prems(3) leaf by (auto simp: Let_def split: if_splits)
  have unfold: "minimaxHelper (Suc fuel) E P depth b s alpha beta st = Some (evaluate E P b ?st)"
    using leaf by (auto simp: Let_def)
  from evaluate_value' [OF ok prems(1)] obtain st' where
    "evaluate E P b ?st = (leafScore E P b, st')" "tableOK E P (table st')" by blast
  then show ?thesis
    unfolding unfold v by blast
qed

lemma minimaxHelper_value:
  assumes wf: "movesKeepWellFormed E" and sides: "opponentSide P \<noteq> side P"
  shows "wellFormed b \<Longrightarrow> tableOK E P (table st) \<Longrightarrow> nodeValue fuel E P depth b s = Some v \<Longrightarrow>
         \<exists>r st'. minimaxHelper fuel E P depth b s alpha beta st = Some (r, st') \<and>
                 tableOK E P (table st') \<and>
                 (if s = side P then min beta r = min beta v else max alpha r = max alpha v)"
proof (induction fuel arbitrary: depth b s alpha beta st v)
  case 0
  then show ?case by simp
next
  case (Suc fuel)
  consider (leaf) "depth = 0 \<or> getPossibleMoves E b s = []"
    | (mx) "depth \<noteq> 0" "getPossibleMoves E b s \<noteq> []" "s = side P"
    | (mn) "depth \<noteq> 0" "getPossibleMoves E b s \<noteq> []" "s \<noteq> side P"
    by blast
  then show ?case
  proof cases
    case leaf
    from step_leaf [OF Suc.prems leaf, of alpha beta] show ?thesis by auto
  next
    case mx
    have "\<exists>r st'. minimaxHelper (Suc fuel) E P depth b s alpha beta st = Some (r, st') \<and>
                 tableOK E P (table st') \<and> min beta r = min beta v"
    proof (rule step_mx [OF _ sides wf Suc.prems mx])
      fix depth b s alpha beta v and st :: PState
      assume "wellFormed b" "tableOK E P (table st)" "nodeValue fuel E P depth b s = Some v"
      then show "\<exists>r st'. minimaxHelper fuel E P depth b s alpha beta st = Some (r, st') \<and>
                 tableOK E P (table st') \<and>
                 (if s = side P then min beta r = min beta v else max alpha r = max alpha v)"
        by (rule Suc.IH)
    qed
    with mx(3) show ?thesis by (simp only: simp_thms if_True)
  next
    case mn
    have "\<exists>r st'. minimaxHelper (Suc fuel) E P depth b s alpha beta st = Some (r, st') \<and>
                 tableOK E P (table st') \<and> max alpha r = max alpha v"
    proof (rule step_mn [OF _ wf Suc.prems mn])
      fix depth b s alpha beta v and st :: PState
      assume "wellFormed b" "tableOK E P (table st)" "nodeValue fuel E P depth b s = Some v"
      then show "\<exists>r st'. minimaxHelper fuel E P depth b s alpha beta st = Some (r, st') \<and>
                 tableOK E P (table st') \<and>
                 (if s = side P then min beta r = min beta v else max alpha r = max alpha v)"
        by (rule Suc.IH)
    qed
    with mn(3) show ?thesis by (simp only: simp_thms if_False)
  qed
qed

lemma rootLoop_value:
  assumes child: "\<And>nb a st v. wellFormed nb \<Longrightarrow> tableOK E P (table st) \<Longrightarrow> recV nb = Some v \<Longrightarrow>
      \<exists>r st'. recH nb a st = Some (r, st') \<and> tableOK E P (table st') \<and> max a r = max a v"
    and wf: "movesKeepWellFormed E" "wellFormed b"
  shows "tableOK E P (table st) \<Longrightarrow> maxValue recV E b (side P) ms alpha = Some V \<Longrightarrow>
         \<exists>bst st'. rootLoop recH E P b ms alpha best st = Some (V, bst, st')"
proof (induction ms arbitrary: alpha best st)
  case Nil
  then show ?case by simp
next
  case (Cons m ms)
  let ?nb = "boardDoMove E b (Some m) (side P)"
  let ?st = "st\<lparr>liveBoards := liveBoards st + 1\<rparr>"
  from Cons.prems(2) obtain v where v: "recV ?nb = Some v"
    and rest: "maxValue recV E b (side P) ms (max alpha v) = Some V"
    by (auto split: option.splits)
  have nb: "wellFormed ?nb" using wf by (rule wellFormed_move)
  have "tableOK E P (table ?st)" using Cons.prems(1) by simp
  from child [OF nb this v, of alpha] obtain r1 st1 where
    r1: "recH ?nb alpha ?st = Some (r1, st1)" and ok: "tableOK E P (table st1)"
    and eq: "max alpha r1 = max alpha v"
    by blast
  define alpha' where "alpha' = (if alpha \<le> r1 then r1 else alpha)"
  define best' where "best' = (if alpha \<le> r1 then Some m else best)"
  define q where "q = (if \<not> alpha \<le> r1 then st1\<lparr>liveMoves := liveMoves st1 - 1\<rparr> else st1)
      \<lparr>liveBoards := liveBoards (if \<not> alpha \<le> r1 then st1\<lparr>liveMoves := liveMoves st1 - 1\<rparr> else st1) - 1\<rparr>"
  have step: "rootLoop recH E P b (m # ms) alpha best st = rootLoop recH E P b ms alpha' best' q"
    using r1 by (simp add: Let_def alpha'_def best'_def q_def)
  have "alpha' = max alpha r1" by (simp add: alpha'_def max_def)
  then have a: "alpha' = max alpha v" by (simp only: eq)
  have okq: "tableOK E P (table q)" using ok by (simp add: q_def)
  have "maxValue recV E b (side P) ms alpha' = Some V"
    using rest by (simp only: a)
  from Cons.IH [OF okq this, of best'] show ?case
    by (simp only: step)
qed



lemma fullMaxLoop_total:
  "(\<And>nb q. recF nb q \<noteq> None) \<Longrightarrow> fullMaxLoop recF E b s ms best st \<noteq> None"
proof (induction ms arbitrary: best st)
  case Nil
  show ?case by simp
next
  case (Cons m ms)
  obtain r q where "recF (boardDoMove E b (Some m) s) st = Some (r, q)"
    using Cons.prems [of "boardDoMove E b (Some m) s" st]
    by (cases "recF (boardDoMove E b (Some m) s) st") auto
  then show ?case
    using Cons.IH [OF Cons.prems] by simp
qed

lemma fullMinLoop_total:
  "(\<And>nb q. recF nb q \<noteq> None) \<Longrightarrow> fullMinLoop recF E b s ms best st \<noteq> None"
proof (induction ms arbitrary: best st)
  case Nil
  show ?case by simp
next
  case (Cons m ms)
  obtain r q where "recF (boardDoMove E b (Some m) s) st = Some (r, q)"
    using Cons.prems [of "boardDoMove E b (Some m) s" st]
    by (cases "recF (boardDoMove E b (Some m) s) st") auto
  then show ?case
    using Cons.IH [OF Cons.prems] by simp
qed

lemma fullMinimax_total:
  "0 \<le> depth \<Longrightarrow> depth < int fuel \<Longrightarrow> fullMinimax fuel E P depth b s st \<noteq> None"
proof (induction fuel arbitrary: depth b s st)
  case 0
  then show ?case by simp
next
  case (Suc fuel)
  show ?case
  proof (cases "depth = 0")
    case True
    then show ?thesis by simp
  next
    case False
    with Suc.prems have d: "0 \<le> depth - 1" "depth - 1 < int fuel" by auto
    have rec: "\<And>s' nb q. fullMinimax fuel E P (depth - 1) nb s' q \<noteq> None"
      using Suc.IH [OF d] .
    have mx: "fullMaxLoop (\<lambda>nb. fullMinimax fuel E P (depth - 1) nb (opponentSide P))
        E b s ms a q \<noteq> None" for ms a q
      by (rule fullMaxLoop_total) (rule rec)
    have mn: "fullMinLoop (\<lambda>nb. fullMinimax fuel E P (depth - 1) nb (side P))
        E b s ms a q \<noteq> None" for ms a q
      by (rule fullMinLoop_total) (rule rec)
    show ?thesis
    proof (cases "s = side P")
      case True
      with False mx show ?thesis by (simp add: Let_def del: not_None_eq)
    next
      case s: False
      with False mn show ?thesis by (simp add: Let_def del: not_None_eq)
    qed
  qed
qed

text \<open>
  C1: the best score at the root of the pruned search, the final \<open>alpha\<close> of
  \<open>findMinimaxMove\<close>, is the best score of the unpruned minimax search of the same depth
  with the same evaluator: whenever the unpruned search returns a score, the pruned one
  returns that score. Both return for every depth of at least 1. The agent's two sides
  differ, the boards keep the invariant of \<open>Board\<close>, and the table holds what \<open>evaluate\<close>
  stored in it.
\<close>

theorem alpha_beta_same_score:
  assumes "opponentSide P \<noteq> side P"
    and "movesKeepWellFormed E"
    and "wellFormed (board st)"
    and "tableOK E P (table st)"
  shows "(\<forall>v st'. fullRoot fuel E P depth st = Some (v, st') \<longrightarrow>
            (\<exists>best st''. searchRoot fuel E P depth st = Some (v, best, st''))) \<and>
         (1 \<le> depth \<and> depth \<le> int fuel \<longrightarrow> fullRoot fuel E P depth st \<noteq> None)"
proof (intro conjI allI impI)
  let ?ms = "getPossibleMoves E (board st) (side P)"
  let ?st = "st\<lparr>liveMoves := liveMoves st + int (length ?ms)\<rparr>"
  let ?recV = "\<lambda>nb. nodeValue fuel E P (depth - 1) nb (opponentSide P)"
  {
    fix v st'
    assume "fullRoot fuel E P depth st = Some (v, st')"
    then have full: "fullMaxLoop (\<lambda>nb. fullMinimax fuel E P (depth - 1) nb (opponentSide P))
        E (board st) (side P) ?ms INT_MIN st = Some (v, st')"
      by (simp add: fullRoot_def)
    have "maxValue ?recV E (board st) (side P) ?ms INT_MIN = Some v \<and> tableOK E P (table st')"
    proof (rule fullMaxLoop_value [OF _ assms(2,3,4) full])
      fix nb r q' and q :: PState
      assume "wellFormed nb" "tableOK E P (table q)"
        "fullMinimax fuel E P (depth - 1) nb (opponentSide P) q = Some (r, q')"
      then show "nodeValue fuel E P (depth - 1) nb (opponentSide P) = Some r \<and> tableOK E P (table q')"
        by (rule fullMinimax_value [OF assms(2)])
    qed
    then have val: "maxValue ?recV E (board st) (side P) ?ms INT_MIN = Some v" ..
    have ok: "tableOK E P (table ?st)" using assms(4) by simp
    have "\<exists>bst st''. rootLoop (\<lambda>nb a. minimaxHelper fuel E P (depth - 1) nb (opponentSide P) a INT_MAX)
        E P (board st) ?ms INT_MIN None ?st = Some (v, bst, st'')"
    proof (rule rootLoop_value [where recV = ?recV, OF _ assms(2,3) ok val])
      fix nb a w and q :: PState
      assume "wellFormed nb" "tableOK E P (table q)"
        "nodeValue fuel E P (depth - 1) nb (opponentSide P) = Some w"
      from minimaxHelper_value [OF assms(2,1) this, of a INT_MAX] assms(1)
      show "\<exists>r st'. minimaxHelper fuel E P (depth - 1) nb (opponentSide P) a INT_MAX q = Some (r, st')
          \<and> tableOK E P (table st') \<and> max a r = max a w"
        by (simp only: if_False)
    qed
    then show "\<exists>best st''. searchRoot fuel E P depth st = Some (v, best, st'')"
      by (simp add: searchRoot_def Let_def)
  next
    assume d: "1 \<le> depth \<and> depth \<le> int fuel"
    have "\<And>nb q. fullMinimax fuel E P (depth - 1) nb (opponentSide P) q \<noteq> None"
      using d by (intro fullMinimax_total) auto
    then show "fullRoot fuel E P depth st \<noteq> None"
      unfolding fullRoot_def by (rule fullMaxLoop_total)
  }
qed

lemma toy_wellFormed: "movesKeepWellFormed toyGame"
  unfolding movesKeepWellFormed_def
proof (intro allI impI)
  fix b :: Board and m :: nat and s
  assume wf: "wellFormed b"
  let ?b = "boardDoMove toyGame b (Some m) s"
  have "black ?b AND NOT (taken ?b) = 0"
  proof (rule bit_word_eqI)
    fix n
    assume "n < LENGTH(64)"
    then show "bit (black ?b AND NOT (taken ?b)) n = bit (0 :: 64 word) n"
      using wellFormed_bit [OF wf, of n]
      by (auto simp: toyGame_def bit_and_iff bit_not_iff bit_set_bit_iff)
  qed
  then show "wellFormed ?b" by (simp add: wellFormed_def)
qed

lemma toy_fullRoot:
  "fullRoot (Suc (Suc 0)) toyGame (testPlayer BLACK) 2 (emptyState emptyBoard) =
     Some (0, emptyState emptyBoard)"
  by (simp add: fullRoot_def toy_simps)

theorem alpha_beta_same_score_witness:
  "opponentSide (testPlayer BLACK) \<noteq> side (testPlayer BLACK) \<and>
   movesKeepWellFormed toyGame \<and>
   wellFormed (board (emptyState emptyBoard)) \<and>
   tableOK toyGame (testPlayer BLACK) (table (emptyState emptyBoard)) \<and>
   fullRoot (Suc (Suc 0)) toyGame (testPlayer BLACK) 2 (emptyState emptyBoard) =
     Some (0, emptyState emptyBoard) \<and>
   (\<exists>best st''. searchRoot (Suc (Suc 0)) toyGame (testPlayer BLACK) 2 (emptyState emptyBoard) =
      Some (0, best, st''))"
proof -
  have 1: "opponentSide (testPlayer BLACK) \<noteq> side (testPlayer BLACK)"
    by (simp add: testPlayer_def newPlayer_def)
  have 3: "wellFormed (board (emptyState emptyBoard))"
    by (simp add: wellFormed_def emptyState_def emptyBoard_def)
  have 4: "tableOK toyGame (testPlayer BLACK) (table (emptyState emptyBoard))"
    by (simp add: tableOK_def emptyState_def)
  from alpha_beta_same_score [OF 1 toy_wellFormed 3 4, of "Suc (Suc 0)" 2] toy_fullRoot
  have "\<exists>best st''. searchRoot (Suc (Suc 0)) toyGame (testPlayer BLACK) 2 (emptyState emptyBoard) =
      Some (0, best, st'')"
    by blast
  with 1 toy_wellFormed 3 4 toy_fullRoot show ?thesis by blast
qed

end
